theory Spec2Isabelle
  imports Main "HOL-Library.Word" "HOL-Library.Signed_Division"
begin

unbundle bit_operations_syntax

section \<open>Bytes, slices and timestamps (c-deps/libroach/db.cc)\<close>

text \<open>
  A \<^verbatim>\<open>std::string\<close> or \<^verbatim>\<open>rocksdb::Slice\<close> is a list of bytes. The
  64-bit \<^verbatim>\<open>int64_t\<close>/\<^verbatim>\<open>uint64_t\<close> and 32-bit \<^verbatim>\<open>int32_t\<close>/\<^verbatim>\<open>uint32_t\<close>
  values are words: the casts \<^verbatim>\<open>uint64_t(wall_time)\<close> and \<^verbatim>\<open>int64_t(w)\<close> keep
  the bits, and signedness only shows in comparisons (\<open>\<le>s\<close>, \<open><s\<close>).
\<close>

type_synonym byte = "8 word"
type_synonym bytes = "byte list"

record DBTimestamp =
  wall_time :: "64 word"
  logical :: "32 word"

definition kZeroTimestamp :: DBTimestamp where
  "kZeroTimestamp = \<lparr>wall_time = 0, logical = 0\<rparr>"

text \<open>\<^verbatim>\<open>operator<\<close> on \<^verbatim>\<open>DBTimestamp\<close> and the three operators derived from it.\<close>

definition ts_less :: "DBTimestamp \<Rightarrow> DBTimestamp \<Rightarrow> bool" where
  "ts_less a b \<longleftrightarrow>
     wall_time a <s wall_time b \<or> (wall_time a = wall_time b \<and> logical a <s logical b)"

definition ts_greater :: "DBTimestamp \<Rightarrow> DBTimestamp \<Rightarrow> bool" where
  "ts_greater a b \<longleftrightarrow> ts_less b a"

definition ts_le :: "DBTimestamp \<Rightarrow> DBTimestamp \<Rightarrow> bool" where
  "ts_le a b \<longleftrightarrow> \<not> ts_less b a"

definition ts_ge :: "DBTimestamp \<Rightarrow> DBTimestamp \<Rightarrow> bool" where
  "ts_ge a b \<longleftrightarrow> ts_le b a"

definition kMVCCVersionTimestampSize :: nat where
  "kMVCCVersionTimestampSize = 12"

subsection \<open>Fixed-width integers on the wire\<close>

text \<open>
  Modelled from the spec: \<^verbatim>\<open>EncodeUint64\<close>, \<^verbatim>\<open>EncodeUint32\<close>, \<^verbatim>\<open>DecodeUint64\<close>
  and \<^verbatim>\<open>DecodeUint32\<close> live in \<^verbatim>\<open>encoding.h\<close>, which is not part of the
  sources at hand. The spec fixes the layout as \<^verbatim>\<open><wall:uint64 big-endian>\<close> and
  \<^verbatim>\<open><logical:uint32 big-endian>\<close>; the decoders fail on a slice shorter than
  the integer and otherwise consume exactly its bytes.
\<close>

definition EncodeUint64 :: "64 word \<Rightarrow> bytes" where
  "EncodeUint64 v = map (\<lambda>i. ucast (drop_bit (8 * i) v)) [7, 6, 5, 4, 3, 2, 1, 0]"

definition EncodeUint32 :: "32 word \<Rightarrow> bytes" where
  "EncodeUint32 v = map (\<lambda>i. ucast (drop_bit (8 * i) v)) [3, 2, 1, 0]"

definition be64 :: "bytes \<Rightarrow> 64 word" where
  "be64 bs = foldl (\<lambda>acc b. push_bit 8 acc OR ucast b) 0 bs"

definition be32 :: "bytes \<Rightarrow> 32 word" where
  "be32 bs = foldl (\<lambda>acc b. push_bit 8 acc OR ucast b) 0 bs"

definition DecodeUint64 :: "bytes \<Rightarrow> (64 word \<times> bytes) option" where
  "DecodeUint64 buf = (if length buf < 8 then None else Some (be64 (take 8 buf), drop 8 buf))"

definition DecodeUint32 :: "bytes \<Rightarrow> (32 word \<times> bytes) option" where
  "DecodeUint32 buf = (if length buf < 4 then None else Some (be32 (take 4 buf), drop 4 buf))"

subsection \<open>The MVCC key codec\<close>

definition EncodeTimestamp :: "64 word \<Rightarrow> 32 word \<Rightarrow> bytes" where
  "EncodeTimestamp w l = EncodeUint64 w @ (if l \<noteq> 0 then EncodeUint32 l else [])"

text \<open>
  \<^verbatim>\<open>EncodeKey\<close>: the user key, then for a non-zero timestamp a NUL and the
  timestamp, then one byte \<^verbatim>\<open>char(s.size() - key.size())\<close>.
\<close>

definition EncodeKey :: "bytes \<Rightarrow> 64 word \<Rightarrow> 32 word \<Rightarrow> bytes" where
  "EncodeKey key w l =
     (let ts = (w \<noteq> 0 \<or> l \<noteq> 0);
          s = key @ (if ts then 0 # EncodeTimestamp w l else [])
      in s @ [of_nat (length s - length key)])"

text \<open>
  \<^verbatim>\<open>SplitKey\<close> reads the last byte into a \<^verbatim>\<open>const char\<close> and compares it
  with \<^verbatim>\<open>buf.size()\<close>, a \<^verbatim>\<open>size_t\<close>. On the x86-64 targets of the library
  \<^verbatim>\<open>char\<close> is signed and \<^verbatim>\<open>size_t\<close> has 64 bits, so the byte is sign-extended
  and then read as unsigned: a byte of 128 or more becomes a number of at
  least \<open>2 ^ 64 - 128\<close>. \<open>char_to_size_t\<close> is that conversion.
\<close>

definition char_to_size_t :: "byte \<Rightarrow> nat" where
  "char_to_size_t c = unat (scast c :: 64 word)"

definition SplitKey :: "bytes \<Rightarrow> (bytes \<times> bytes) option" where
  "SplitKey buf =
     (if buf = [] then None
      else let ts_size = char_to_size_t (last buf) in
        if ts_size \<ge> length buf then None
        else let n = length buf - ts_size - 1 in
          Some (take n buf, take ts_size (drop n buf)))"

text \<open>
  \<^verbatim>\<open>DecodeTimestamp\<close> advances the slice it is given; the model returns the
  rest of the slice with the two numbers.
\<close>

definition DecodeTimestamp :: "bytes \<Rightarrow> (64 word \<times> 32 word \<times> bytes) option" where
  "DecodeTimestamp ts =
     (case DecodeUint64 ts of
        None \<Rightarrow> None
      | Some (w, rest) \<Rightarrow>
          if length rest > 0 then
            (case DecodeUint32 rest of
               None \<Rightarrow> None
             | Some (l, rest') \<Rightarrow> Some (w, l, rest'))
          else Some (w, 0, rest))"

text \<open>
  \<^verbatim>\<open>DecodeKey\<close> returns a \<^verbatim>\<open>bool\<close> and writes the key and the timestamp
  through pointers. For a key without timestamp it writes neither
  \<^verbatim>\<open>*wall_time\<close> nor \<^verbatim>\<open>*logical\<close>: they keep what the caller stored there.
  The model therefore takes the previous contents \<open>w0\<close>, \<open>l0\<close> of the two
  out-parameters; \<open>None\<close> is the result \<^verbatim>\<open>false\<close>.
\<close>

definition DecodeKey :: "bytes \<Rightarrow> 64 word \<Rightarrow> 32 word \<Rightarrow> (bytes \<times> 64 word \<times> 32 word) option" where
  "DecodeKey buf w0 l0 =
     (case SplitKey buf of
        None \<Rightarrow> None
      | Some (key, timestamp) \<Rightarrow>
          if length timestamp > 0 then
            (case DecodeTimestamp (drop 1 timestamp) of
               None \<Rightarrow> None
             | Some (w, l, rest) \<Rightarrow> if rest = [] then Some (key, w, l) else None)
          else Some (key, w0, l0))"

text \<open>
  The call sites (\<^verbatim>\<open>ToDBKey\<close>, \<^verbatim>\<open>DBIterGetState\<close>, \<^verbatim>\<open>updateCurrent\<close>,
  \<^verbatim>\<open>MVCCComputeStatsInternal\<close>, \<^verbatim>\<open>MVCCFindSplitKey\<close>) zero the timestamp
  before they call \<^verbatim>\<open>DecodeKey\<close>.
\<close>

definition DecodeKey0 :: "bytes \<Rightarrow> (bytes \<times> DBTimestamp) option" where
  "DecodeKey0 buf =
     (case DecodeKey buf 0 0 of
        None \<Rightarrow> None
      | Some (key, w, l) \<Rightarrow> Some (key, \<lparr>wall_time = w, logical = l\<rparr>))"

subsection \<open>The comparator\<close>

text \<open>
  \<^verbatim>\<open>rocksdb::Slice::compare\<close>: \<^verbatim>\<open>memcmp\<close> (unsigned bytes) over the common
  length, then the shorter slice first. Only the sign of the result is kept:
  \<open>- 1\<close>, \<open>0\<close> or \<open>1\<close>.
\<close>

fun slice_compare :: "bytes \<Rightarrow> bytes \<Rightarrow> int" where
  "slice_compare [] [] = 0"
| "slice_compare [] (y # ys) = - 1"
| "slice_compare (x # xs) [] = 1"
| "slice_compare (x # xs) (y # ys) =
     (if x < y then - 1 else if y < x then 1 else slice_compare xs ys)"

text \<open>\<^verbatim>\<open>DBComparator::Compare\<close>.\<close>

definition Compare :: "bytes \<Rightarrow> bytes \<Rightarrow> int" where
  "Compare a b =
     (case (SplitKey a, SplitKey b) of
        (Some (key_a, ts_a), Some (key_b, ts_b)) \<Rightarrow>
          let c = slice_compare key_a key_b in
          if c \<noteq> 0 then c
          else if ts_a = [] then (if ts_b = [] then 0 else - 1)
          else if ts_b = [] then 1
          else slice_compare ts_b ts_a
      | _ \<Rightarrow> slice_compare a b)"

text \<open>The number a byte string denotes when read big-endian (used to relate
  \<open>slice_compare\<close> to the order of the encoded integers).\<close>

definition benat :: "bytes \<Rightarrow> nat" where
  "benat bs = foldl (\<lambda>acc b. acc * 256 + unat b) 0 bs"

subsection \<open>GC age\<close>

text \<open>
  \<^verbatim>\<open>kNanosecondPerSecond\<close> is the \<^verbatim>\<open>int64_t\<close> initialised from \<^verbatim>\<open>1e9\<close>.
  C++ integer division truncates towards zero (\<open>sdiv\<close> on \<open>int\<close>); the results
  are stored back into 64 bits.
\<close>

definition kNanosecondPerSecond :: int where
  "kNanosecondPerSecond = 1000000000"

definition age_factor :: "64 word \<Rightarrow> 64 word \<Rightarrow> 64 word" where
  "age_factor fromNS toNS =
     word_of_int (sint toNS sdiv kNanosecondPerSecond)
       - word_of_int (sint fromNS sdiv kNanosecondPerSecond)"

section \<open>Values, protobuf messages and the merge operator\<close>

text \<open>
  The protobuf messages are generated code (\<^verbatim>\<open>protos/.../*.pb.h\<close>) and their
  wire format belongs to the protobuf library; neither is part of the sources
  at hand. The messages are records with the fields this file reads and
  writes, and the library enters every function as a parameter \<open>pb\<close>: the
  parsers (\<open>None\<close> when \<^verbatim>\<open>ParseFromArray\<close> returns false), the serialisers and
  the numbers of the \<^verbatim>\<open>roachpb::ValueType\<close> enumerators. An unset optional field
  is \<open>None\<close>; \<^verbatim>\<open>has_raw_bytes()\<close> is \<open>raw_bytes m \<noteq> None\<close>. A sample's fields
  other than \<^verbatim>\<open>offset\<close> are only ever copied, so they are one field \<open>payload\<close>
  of any type.
\<close>

record 'p InternalTimeSeriesSample =
  offset :: "32 word"
  payload :: 'p

record 'p InternalTimeSeriesData =
  start_timestamp_nanos :: "64 word"
  sample_duration_nanos :: "64 word"
  samples :: "'p InternalTimeSeriesSample list"

record TxnMeta =
  txn_id :: bytes
  epoch :: "32 word"

record MVCCMetadata =
  txn :: "TxnMeta option"
  timestamp :: DBTimestamp
  deleted :: bool
  key_bytes :: "64 word"
  val_bytes :: "64 word"
  raw_bytes :: "bytes option"
  merge_timestamp :: "DBTimestamp option"

record 'p protobuf =
  parse_ts :: "bytes \<Rightarrow> 'p InternalTimeSeriesData option"
  serialize_ts :: "'p InternalTimeSeriesData \<Rightarrow> bytes"
  parse_meta :: "bytes \<Rightarrow> MVCCMetadata option"
  serialize_meta :: "MVCCMetadata \<Rightarrow> bytes option"
  default_sample :: "'p InternalTimeSeriesSample"
  UNKNOWN :: int
  BYTES :: int
  TIMESERIES :: int

text \<open>A freshly constructed (or cleared) \<^verbatim>\<open>MVCCMetadata\<close>.\<close>

definition MVCCMetadata_clear :: MVCCMetadata where
  "MVCCMetadata_clear =
     \<lparr>txn = None, timestamp = kZeroTimestamp, deleted = False, key_bytes = 0, val_bytes = 0,
      raw_bytes = None, merge_timestamp = None\<rparr>"

text \<open>\<^verbatim>\<open>m.raw_bytes()\<close> on a message: the empty string when the field is unset.\<close>

definition get_raw_bytes :: "MVCCMetadata \<Rightarrow> bytes" where
  "get_raw_bytes m = (case raw_bytes m of None \<Rightarrow> [] | Some b \<Rightarrow> b)"

subsection \<open>The value envelope\<close>

definition kChecksumSize :: nat where "kChecksumSize = 4"
definition kTagPos :: nat where "kTagPos = kChecksumSize"
definition kHeaderSize :: nat where "kHeaderSize = kTagPos + 1"

definition ValueDataBytes :: "bytes \<Rightarrow> bytes" where
  "ValueDataBytes val = (if length val < kHeaderSize then [] else drop kHeaderSize val)"

text \<open>\<^verbatim>\<open>ValueType(val[kTagPos])\<close> converts a (signed) \<^verbatim>\<open>char\<close> to the enumeration.\<close>

definition GetTag :: "'p protobuf \<Rightarrow> bytes \<Rightarrow> int" where
  "GetTag pb val = (if length val < kHeaderSize then UNKNOWN pb else sint (val ! kTagPos))"

definition SetTag :: "bytes \<Rightarrow> int \<Rightarrow> bytes" where
  "SetTag val tag = val[kTagPos := of_int tag]"

definition ParseProtoFromValue :: "(bytes \<Rightarrow> 'm option) \<Rightarrow> bytes \<Rightarrow> 'm option" where
  "ParseProtoFromValue parse val =
     (if length val < kHeaderSize then None else parse (ValueDataBytes val))"

definition SerializeProtoToValue :: "'p protobuf \<Rightarrow> bytes \<Rightarrow> bytes" where
  "SerializeProtoToValue pb msg = SetTag (replicate kHeaderSize 0) (BYTES pb) @ msg"

definition IsTimeSeriesData :: "'p protobuf \<Rightarrow> bytes \<Rightarrow> bool" where
  "IsTimeSeriesData pb val \<longleftrightarrow> GetTag pb val = TIMESERIES pb"

definition SerializeTimeSeriesToValue :: "'p protobuf \<Rightarrow> 'p InternalTimeSeriesData \<Rightarrow> bytes" where
  "SerializeTimeSeriesToValue pb ts =
     SetTag (SerializeProtoToValue pb (serialize_ts pb ts)) (TIMESERIES pb)"

subsection \<open>Time series\<close>

text \<open>
  \<^verbatim>\<open>std::stable_sort\<close> with \<^verbatim>\<open>TimeSeriesSampleOrdering\<close> (\<^verbatim>\<open>a->offset() < b->offset()\<close>
  on \<^verbatim>\<open>int32\<close>): a stable sort on the signed offset.
\<close>

definition stable_sort_samples ::
  "'p InternalTimeSeriesSample list \<Rightarrow> 'p InternalTimeSeriesSample list" where
  "stable_sort_samples xs = sort_key (\<lambda>s. sint (offset s)) xs"

text \<open>
  The loop of \<^verbatim>\<open>ConsolidateTimeSeriesValue\<close>: a new sample takes the offset of
  the front, then every following sample with that offset is copied over it.
\<close>

function consolidate_samples ::
  "'p InternalTimeSeriesSample list \<Rightarrow> 'p InternalTimeSeriesSample list" where
  "consolidate_samples [] = []"
| "consolidate_samples (x # xs) =
     last (x # takeWhile (\<lambda>s. offset s = offset x) xs)
       # consolidate_samples (dropWhile (\<lambda>s. offset s = offset x) xs)"
  by pat_completeness auto
termination
  by (relation "measure length") (auto simp add: length_dropWhile_le less_Suc_eq_le)

definition ConsolidateTimeSeriesValue :: "'p protobuf \<Rightarrow> bytes \<Rightarrow> bytes option" where
  "ConsolidateTimeSeriesValue pb val =
     (case ParseProtoFromValue (parse_ts pb) val of
        None \<Rightarrow> None
      | Some val_ts \<Rightarrow>
          Some (SerializeTimeSeriesToValue pb
            \<lparr>start_timestamp_nanos = start_timestamp_nanos val_ts,
             sample_duration_nanos = sample_duration_nanos val_ts,
             samples = consolidate_samples (stable_sort_samples (samples val_ts))\<rparr>))"

text \<open>
  The loop of \<^verbatim>\<open>MergeTimeSeriesValues\<close>: the lowest front offset is chosen, the
  samples with that offset are consumed from the left and then from the right,
  and the last one consumed is emitted. \<open>d\<close> is the default-constructed
  \<^verbatim>\<open>src\<close>.
\<close>

definition next_offset ::
  "'p InternalTimeSeriesSample list \<Rightarrow> 'p InternalTimeSeriesSample list \<Rightarrow> 32 word" where
  "next_offset l r =
     (if l = [] then offset (hd r)
      else if r = [] then offset (hd l)
      else if offset (hd l) \<le>s offset (hd r) then offset (hd l)
      else offset (hd r))"

definition last_or :: "'a \<Rightarrow> 'a list \<Rightarrow> 'a" where
  "last_or d xs = (if xs = [] then d else last xs)"

function merge_samples ::
  "'p InternalTimeSeriesSample \<Rightarrow> 'p InternalTimeSeriesSample list \<Rightarrow>
   'p InternalTimeSeriesSample list \<Rightarrow> 'p InternalTimeSeriesSample list" where
  "merge_samples d l r =
     (if l = [] \<and> r = [] then []
      else
        let n = next_offset l r;
            src = last_or (last_or d (takeWhile (\<lambda>s. offset s = n) l))
                    (takeWhile (\<lambda>s. offset s = n) r)
        in src # merge_samples d (dropWhile (\<lambda>s. offset s = n) l)
                                 (dropWhile (\<lambda>s. offset s = n) r))"
  by pat_completeness auto
termination
proof (relation "measure (\<lambda>(d, l, r). length l + length r)")
  show "wf (measure (\<lambda>(d, l, r). length l + length r))" by simp
next
  fix d :: "'p InternalTimeSeriesSample" and l r :: "'p InternalTimeSeriesSample list" and n
  assume ne: "\<not> (l = [] \<and> r = [])" and n: "n = next_offset l r"
  let ?P = "\<lambda>s. offset s = n"
  have le: "length (dropWhile ?P l) \<le> length l" "length (dropWhile ?P r) \<le> length r"
    by (simp_all add: length_dropWhile_le)
  have "(l \<noteq> [] \<and> ?P (hd l)) \<or> (r \<noteq> [] \<and> ?P (hd r))"
    using ne n by (auto simp add: next_offset_def)
  then have "length (dropWhile ?P l) < length l \<or> length (dropWhile ?P r) < length r"
  proof
    assume "l \<noteq> [] \<and> ?P (hd l)"
    then obtain x xs where "l = x # xs" "?P x" by (cases l) auto
    then show ?thesis using length_dropWhile_le[of ?P xs] by simp
  next
    assume "r \<noteq> [] \<and> ?P (hd r)"
    then obtain x xs where "r = x # xs" "?P x" by (cases r) auto
    then show ?thesis using length_dropWhile_le[of ?P xs] by simp
  qed
  with le show "((d, dropWhile ?P l, dropWhile ?P r), d, l, r)
      \<in> measure (\<lambda>(d, l, r). length l + length r)"
    by auto
qed

definition MergeTimeSeriesValues ::
  "'p protobuf \<Rightarrow> bytes \<Rightarrow> bytes \<Rightarrow> bool \<Rightarrow> bytes option" where
  "MergeTimeSeriesValues pb left right full_merge =
     (case ParseProtoFromValue (parse_ts pb) left of
        None \<Rightarrow> None
      | Some left_ts \<Rightarrow>
     (case ParseProtoFromValue (parse_ts pb) right of
        None \<Rightarrow> None
      | Some right_ts \<Rightarrow>
          if start_timestamp_nanos left_ts \<noteq> start_timestamp_nanos right_ts then None
          else if sample_duration_nanos left_ts \<noteq> sample_duration_nanos right_ts then None
          else if \<not> full_merge then
            Some (SerializeTimeSeriesToValue pb
              (left_ts\<lparr>samples := samples left_ts @ samples right_ts\<rparr>))
          else
            Some (SerializeTimeSeriesToValue pb
              \<lparr>start_timestamp_nanos = start_timestamp_nanos left_ts,
               sample_duration_nanos = sample_duration_nanos left_ts,
               samples = merge_samples (default_sample pb) (samples left_ts)
                           (stable_sort_samples (samples right_ts))\<rparr>)))"

text \<open>
  Two notions for stating the properties of the loops: the sort key of a
  sample, and the list holding the last element of a list, if there is one.
\<close>

definition ko :: "'p InternalTimeSeriesSample \<Rightarrow> int" where
  "ko s = sint (offset s)"

definition last_list :: "'a list \<Rightarrow> 'a list" where
  "last_list xs = (if xs = [] then [] else [last xs])"

subsection \<open>Merging MVCC metadata\<close>

definition MergeValues ::
  "'p protobuf \<Rightarrow> MVCCMetadata \<Rightarrow> MVCCMetadata \<Rightarrow> bool \<Rightarrow> MVCCMetadata option" where
  "MergeValues pb left right full_merge =
     (case raw_bytes left of
        Some lraw \<Rightarrow>
          (case raw_bytes right of
             None \<Rightarrow> None
           | Some rraw \<Rightarrow>
               if IsTimeSeriesData pb lraw \<or> IsTimeSeriesData pb rraw then
                 if \<not> IsTimeSeriesData pb lraw \<or> \<not> IsTimeSeriesData pb rraw then None
                 else (case MergeTimeSeriesValues pb lraw rraw full_merge of
                         None \<Rightarrow> None
                       | Some v \<Rightarrow> Some (left\<lparr>raw_bytes := Some v\<rparr>))
               else Some (left\<lparr>raw_bytes := Some (lraw @ ValueDataBytes rraw)\<rparr>))
      | None \<Rightarrow>
          let left1 = left\<lparr>raw_bytes := Some (get_raw_bytes right)\<rparr>;
              left2 = (case merge_timestamp right of
                         None \<Rightarrow> left1
                       | Some t \<Rightarrow> left1\<lparr>merge_timestamp := Some t\<rparr>)
          in if full_merge \<and> IsTimeSeriesData pb (get_raw_bytes left2) then
               (case ConsolidateTimeSeriesValue pb (get_raw_bytes left2) of
                  None \<Rightarrow> None
                | Some v \<Rightarrow> Some (left2\<lparr>raw_bytes := Some v\<rparr>))
             else Some left2)"

text \<open>
  A \<^verbatim>\<open>DBStatus\<close> is \<^verbatim>\<open>kSuccess\<close> (\<open>None\<close>) or a message. A \<^verbatim>\<open>DBString\<close> is
  \<open>None\<close> when its \<^verbatim>\<open>data\<close> is \<^verbatim>\<open>NULL\<close> (which marks a deleted or absent
  value). \<^verbatim>\<open>ToDBString\<close> copies into \<^verbatim>\<open>malloc(len)\<close> memory, which is taken to
  be non-\<^verbatim>\<open>NULL\<close> also for \<^verbatim>\<open>len = 0\<close>, as with glibc.
\<close>

type_synonym DBStatus = "string option"
type_synonym DBString = "bytes option"

definition kSuccess :: DBStatus where
  "kSuccess = None"

definition ToDBString :: "bytes \<Rightarrow> DBString" where
  "ToDBString s = Some s"

definition MergeResult :: "'p protobuf \<Rightarrow> MVCCMetadata \<Rightarrow> DBStatus \<times> DBString" where
  "MergeResult pb meta =
     (case serialize_meta pb meta of
        None \<Rightarrow> (Some ''serialization error'', None)
      | Some b \<Rightarrow> (kSuccess, Some b))"

text \<open>
  When \<^verbatim>\<open>DBMergeOne\<close> or \<^verbatim>\<open>MergeResult\<close> fails, the contents of
  \<^verbatim>\<open>*new_value\<close> carry no meaning and the callers discard them; the model
  gives \<open>None\<close> with the error.
\<close>

definition DBMergeOne :: "'p protobuf \<Rightarrow> bytes \<Rightarrow> bytes \<Rightarrow> DBStatus \<times> DBString" where
  "DBMergeOne pb existing update =
     (case parse_meta pb existing of
        None \<Rightarrow> (Some ''corrupted existing value'', None)
      | Some meta \<Rightarrow>
     (case parse_meta pb update of
        None \<Rightarrow> (Some ''corrupted update value'', None)
      | Some update_meta \<Rightarrow>
     (case MergeValues pb meta update_meta True of
        None \<Rightarrow> (Some ''incompatible merge values'', None)
      | Some meta' \<Rightarrow> MergeResult pb meta')))"

subsection \<open>A protobuf instance for examples\<close>

text \<open>
  For evaluating the functions on concrete inputs, a stand-in for the protobuf
  library with a toy wire format. A time series is one byte per sample, the
  sample's offset. An \<^verbatim>\<open>MVCCMetadata\<close> is: the empty string for the cleared
  message; a byte 1 followed by the inline \<^verbatim>\<open>raw_bytes\<close>; or a byte 2 followed
  by the transaction's epoch, the wall time of \<^verbatim>\<open>timestamp\<close> and the
  transaction's id (an intent).
\<close>

definition example_parse_meta :: "bytes \<Rightarrow> MVCCMetadata option" where
  "example_parse_meta b =
     (case b of
        [] \<Rightarrow> Some MVCCMetadata_clear
      | t # rest \<Rightarrow>
          if t = 1 then Some (MVCCMetadata_clear\<lparr>raw_bytes := Some rest\<rparr>)
          else if t = 2 then
            (case rest of
               e # w # i \<Rightarrow>
                 Some (MVCCMetadata_clear
                   \<lparr>txn := Some \<lparr>txn_id = i, epoch = ucast e\<rparr>,
                    timestamp := \<lparr>wall_time = ucast w, logical = 0\<rparr>\<rparr>)
             | _ \<Rightarrow> None)
          else None)"

definition example_serialize_meta :: "MVCCMetadata \<Rightarrow> bytes option" where
  "example_serialize_meta m =
     (case raw_bytes m of
        Some r \<Rightarrow> Some (1 # r)
      | None \<Rightarrow>
          (case txn m of
             None \<Rightarrow> Some []
           | Some t \<Rightarrow> Some (2 # ucast (epoch t) # ucast (wall_time (timestamp m)) # txn_id t)))"

definition example_pb :: "unit protobuf" where
  "example_pb =
     \<lparr>parse_ts = (\<lambda>b. Some \<lparr>start_timestamp_nanos = 0, sample_duration_nanos = 0,
                              samples = map (\<lambda>c. \<lparr>offset = ucast c, payload = ()\<rparr>) b\<rparr>),
      serialize_ts = (\<lambda>ts. map (\<lambda>s. ucast (offset s)) (samples ts)),
      parse_meta = example_parse_meta,
      serialize_meta = example_serialize_meta,
      default_sample = \<lparr>offset = 0, payload = ()\<rparr>,
      UNKNOWN = 0, BYTES = 3, TIMESERIES = 100\<rparr>"

section \<open>The overlay of a write batch on a base: replaying the deltas of a key\<close>

text \<open>
  \<^verbatim>\<open>rocksdb::WriteEntry\<close> and the record types of \<^verbatim>\<open>rocksdb::WriteType\<close>. The
  delta iterator \<^verbatim>\<open>WBWIIterator\<close> is the list of the entries from its position
  on (sorted by key and, for one key, in insertion order); \<^verbatim>\<open>Valid()\<close> is
  "not empty", \<^verbatim>\<open>Entry()\<close> the head and \<^verbatim>\<open>Next()\<close> the tail.
\<close>

datatype WriteType =
  kPutRecord | kMergeRecord | kDeleteRecord | kSingleDeleteRecord | kDeleteRangeRecord
  | kLogDataRecord | kXIDRecord

record WriteEntry =
  entry_type :: WriteType
  entry_key :: bytes
  entry_value :: bytes

text \<open>
  A \<^verbatim>\<open>Getter\<close> is what its \<^verbatim>\<open>Get\<close> does: it fails with a status and leaves the
  value alone (\<open>Inl\<close>; only \<^verbatim>\<open>DBGetter\<close> can), or it succeeds and stores a value,
  \<^verbatim>\<open>NULL\<close> when the base has none (\<open>Inr\<close>).
\<close>

type_synonym Getter = "string + DBString"

text \<open>
  The outcome of \<^verbatim>\<open>ProcessDeltaKey\<close>: the status, \<^verbatim>\<open>*value\<close>, the delta
  iterator as it is left, and how many times \<^verbatim>\<open>base->Get\<close> was called.
\<close>

record ProcessDeltaResult =
  pd_status :: DBStatus
  pd_value :: DBString
  pd_delta :: "WriteEntry list"
  pd_gets :: nat

text \<open>The \<^verbatim>\<open>for\<close> loop of \<^verbatim>\<open>ProcessDeltaKey\<close> with the two \<^verbatim>\<open>return\<close>s after it.\<close>

fun ProcessDeltaKey_loop ::
  "'p protobuf \<Rightarrow> Getter \<Rightarrow> bytes \<Rightarrow> WriteEntry list \<Rightarrow> DBString \<Rightarrow> nat \<Rightarrow> nat \<Rightarrow>
   ProcessDeltaResult" where
  "ProcessDeltaKey_loop pb base key [] value count gets =
     (if count > 0 then \<lparr>pd_status = kSuccess, pd_value = value, pd_delta = [], pd_gets = gets\<rparr>
      else (case base of
              Inl err \<Rightarrow> \<lparr>pd_status = Some err, pd_value = value, pd_delta = [], pd_gets = gets + 1\<rparr>
            | Inr v \<Rightarrow> \<lparr>pd_status = kSuccess, pd_value = v, pd_delta = [], pd_gets = gets + 1\<rparr>))"
| "ProcessDeltaKey_loop pb base key (entry # rest) value count gets =
     (if entry_key entry \<noteq> key then
        (if count > 0 then
           \<lparr>pd_status = kSuccess, pd_value = value, pd_delta = entry # rest, pd_gets = gets\<rparr>
         else (case base of
                 Inl err \<Rightarrow> \<lparr>pd_status = Some err, pd_value = value, pd_delta = entry # rest,
                              pd_gets = gets + 1\<rparr>
               | Inr v \<Rightarrow> \<lparr>pd_status = kSuccess, pd_value = v, pd_delta = entry # rest,
                            pd_gets = gets + 1\<rparr>))
      else
        (case entry_type entry of
           kPutRecord \<Rightarrow>
             ProcessDeltaKey_loop pb base key rest (ToDBString (entry_value entry)) (count + 1) gets
         | kMergeRecord \<Rightarrow>
             (if count = 0 then
                (case base of
                   Inl err \<Rightarrow> \<lparr>pd_status = Some err, pd_value = None, pd_delta = entry # rest,
                                pd_gets = gets + 1\<rparr>
                 | Inr existing \<Rightarrow>
                     (case existing of
                        Some e \<Rightarrow>
                          (case DBMergeOne pb e (entry_value entry) of
                             (Some err, v) \<Rightarrow>
                               \<lparr>pd_status = Some err, pd_value = v, pd_delta = entry # rest,
                                pd_gets = gets + 1\<rparr>
                           | (None, v) \<Rightarrow>
                               ProcessDeltaKey_loop pb base key rest v (count + 1) (gets + 1))
                      | None \<Rightarrow>
                          ProcessDeltaKey_loop pb base key rest (ToDBString (entry_value entry))
                            (count + 1) (gets + 1)))
              else
                (case value of
                   Some e \<Rightarrow>
                     (case DBMergeOne pb e (entry_value entry) of
                        (Some err, v) \<Rightarrow>
                          \<lparr>pd_status = Some err, pd_value = v, pd_delta = entry # rest,
                           pd_gets = gets\<rparr>
                      | (None, v) \<Rightarrow> ProcessDeltaKey_loop pb base key rest v (count + 1) gets)
                 | None \<Rightarrow>
                     ProcessDeltaKey_loop pb base key rest (ToDBString (entry_value entry))
                       (count + 1) gets))
         | kDeleteRecord \<Rightarrow> ProcessDeltaKey_loop pb base key rest None (count + 1) gets
         | _ \<Rightarrow> ProcessDeltaKey_loop pb base key rest value (count + 1) gets))"

text \<open>\<^verbatim>\<open>ProcessDeltaKey\<close> first frees and clears \<^verbatim>\<open>*value\<close>.\<close>

definition ProcessDeltaKey ::
  "'p protobuf \<Rightarrow> Getter \<Rightarrow> WriteEntry list \<Rightarrow> bytes \<Rightarrow> ProcessDeltaResult" where
  "ProcessDeltaKey pb base delta key = ProcessDeltaKey_loop pb base key delta None 0 0"

subsection \<open>The replay as the specification words it\<close>

text \<open>
  The entries of the batch for the key, in insertion order, are the leading
  entries of the delta with that key. A put replaces the accumulated value, a
  delete clears it, a merge merges its operand into the accumulated value, the
  operand alone being the result when there is none. When the first entry is
  a merge, the accumulated value starts as the base value, fetched once; when
  there is no entry, the result is the base value.
\<close>

definition key_entries :: "bytes \<Rightarrow> WriteEntry list \<Rightarrow> WriteEntry list" where
  "key_entries key delta = takeWhile (\<lambda>e. entry_key e = key) delta"

definition merge_into :: "'p protobuf \<Rightarrow> DBString \<Rightarrow> bytes \<Rightarrow> string + DBString" where
  "merge_into pb acc operand =
     (case acc of
        None \<Rightarrow> Inr (Some operand)
      | Some a \<Rightarrow> (case DBMergeOne pb a operand of
                     (Some err, v) \<Rightarrow> Inl err
                   | (None, v) \<Rightarrow> Inr v))"

definition replay_entry :: "'p protobuf \<Rightarrow> DBString \<Rightarrow> WriteEntry \<Rightarrow> string + DBString" where
  "replay_entry pb acc e =
     (if entry_type e = kPutRecord then Inr (Some (entry_value e))
      else if entry_type e = kDeleteRecord then Inr None
      else if entry_type e = kMergeRecord then merge_into pb acc (entry_value e)
      else Inr acc)"

fun replay_entries :: "'p protobuf \<Rightarrow> DBString \<Rightarrow> WriteEntry list \<Rightarrow> string + DBString" where
  "replay_entries pb acc [] = Inr acc"
| "replay_entries pb acc (e # es) =
     (case replay_entry pb acc e of
        Inl err \<Rightarrow> Inl err
      | Inr acc' \<Rightarrow> replay_entries pb acc' es)"

definition replay_delta :: "'p protobuf \<Rightarrow> Getter \<Rightarrow> WriteEntry list \<Rightarrow> string + DBString" where
  "replay_delta pb base es =
     (case es of
        [] \<Rightarrow> base
      | e # es' \<Rightarrow>
          if entry_type e = kMergeRecord then
            (case base of Inl err \<Rightarrow> Inl err | Inr b \<Rightarrow> replay_entries pb b es)
          else replay_entries pb None es)"

definition base_fetches :: "WriteEntry list \<Rightarrow> nat" where
  "base_fetches es = (if es = [] \<or> entry_type (hd es) = kMergeRecord then 1 else 0)"

section \<open>The store and the choice of a split key\<close>

text \<open>
  A \<^verbatim>\<open>rocksdb::Iterator\<close> runs over the rows of the store: pairs of an encoded
  key and a value, in the order of the comparator. A position is an index
  into the rows; \<^verbatim>\<open>Seek(target)\<close> goes to the first row whose key does not
  compare before the target.
\<close>

type_synonym row = "bytes \<times> bytes"

definition seek_index :: "row list \<Rightarrow> bytes \<Rightarrow> nat" where
  "seek_index rows target = length (takeWhile (\<lambda>r. Compare (fst r) target < 0) rows)"

text \<open>
  The key constants of \<^verbatim>\<open>keys.h\<close>, which is not part of the sources at hand,
  are parameters.
\<close>

record keys_constants =
  kMeta2KeyMax :: bytes
  kSortedNoSplitSpans :: "(bytes \<times> bytes) list"
  kSortedNoSplitSpansWithoutMeta2Splits :: "(bytes \<times> bytes) list"
  kLocalMax :: bytes

text \<open>The \<^verbatim>\<open>for\<close> loop of \<^verbatim>\<open>IsValidSplitKey\<close> over the spans.\<close>

fun no_split_spans_loop :: "(bytes \<times> bytes) list \<Rightarrow> bytes \<Rightarrow> bool" where
  "no_split_spans_loop [] key = True"
| "no_split_spans_loop (span # spans) key =
     (if slice_compare key (snd span) \<ge> 0 then True
      else if slice_compare key (fst span) > 0 then False
      else no_split_spans_loop spans key)"

definition IsValidSplitKey :: "keys_constants \<Rightarrow> bytes \<Rightarrow> bool \<Rightarrow> bool" where
  "IsValidSplitKey kc key allow_meta2_splits =
     (if key = kMeta2KeyMax kc then False
      else no_split_spans_loop
             (if allow_meta2_splits then kSortedNoSplitSpans kc
              else kSortedNoSplitSpansWithoutMeta2Splits kc) key)"

text \<open>
  A \<^verbatim>\<open>DBKey\<close> and the locals of \<^verbatim>\<open>MVCCFindSplitKey\<close> that live across
  iterations. \<open>seen\<close> is the counter \<^verbatim>\<open>n\<close> of the rows seen (an \<^verbatim>\<open>int\<close> in the
  source, which no store can overflow).
\<close>

record DBKey =
  dbkey :: bytes
  dbkey_wall_time :: "64 word"
  dbkey_logical :: "32 word"

definition EncodeDBKey :: "DBKey \<Rightarrow> bytes" where
  "EncodeDBKey k = EncodeKey (dbkey k) (dbkey_wall_time k) (dbkey_logical k)"

record split_state =
  size_so_far :: "64 word"
  best_split_key :: bytes
  best_split_diff :: "64 word"
  prev_key :: bytes
  seen :: nat

text \<open>
  The body of the loop of \<^verbatim>\<open>MVCCFindSplitKey\<close>, in three parts: the distance
  \<^verbatim>\<open>diff\<close> of the size so far from the target; the count and the choice of
  the row's key as the best one so far; and, unless the loop is left, the row's
  contribution to the size.
\<close>

definition split_diff :: "64 word \<Rightarrow> split_state \<Rightarrow> 64 word" where
  "split_diff target_sz st =
     (let diff = target_sz - size_so_far st in if diff <s 0 then - diff else diff)"

definition split_candidate ::
  "keys_constants \<Rightarrow> bytes \<Rightarrow> 64 word \<Rightarrow> bool \<Rightarrow> bytes \<Rightarrow> split_state \<Rightarrow> split_state" where
  "split_candidate kc min_split_key target_sz allow_meta2_splits decoded_key st =
     (let n' = seen st + 1;
          valid = (n' > 1 \<and> IsValidSplitKey kc decoded_key allow_meta2_splits
                   \<and> slice_compare decoded_key min_split_key \<ge> 0);
          diff = split_diff target_sz st
      in if valid \<and> diff <s best_split_diff st
         then st\<lparr>seen := n', best_split_key := decoded_key, best_split_diff := diff\<rparr>
         else st\<lparr>seen := n'\<rparr>)"

definition split_account :: "row \<Rightarrow> bytes \<Rightarrow> 64 word \<Rightarrow> 32 word \<Rightarrow> split_state \<Rightarrow> split_state" where
  "split_account r decoded_key wall logic st =
     (let is_value = (wall \<noteq> 0 \<or> logic \<noteq> 0);
          size' =
            (if is_value \<and> decoded_key = prev_key st then
               size_so_far st + of_nat (kMVCCVersionTimestampSize + length (snd r))
             else
               size_so_far st + of_nat (length decoded_key + 1 + length (snd r))
                 + (if is_value then of_nat kMVCCVersionTimestampSize else 0))
      in st\<lparr>size_so_far := size', prev_key := decoded_key\<rparr>)"

text \<open>
  The loop over the rows from the iterator's position on. \<open>Inl\<close> is the early
  \<^verbatim>\<open>return FmtStatus(...)\<close>; \<open>Inr\<close> is the state with which the loop ends, by
  its condition or by \<^verbatim>\<open>break\<close>.
\<close>

fun FindSplitKey_loop ::
  "keys_constants \<Rightarrow> bytes \<Rightarrow> bytes \<Rightarrow> 64 word \<Rightarrow> bool \<Rightarrow> row list \<Rightarrow> split_state \<Rightarrow>
   string + split_state" where
  "FindSplitKey_loop kc end_key min_split_key target_sz allow_meta2_splits [] st = Inr st"
| "FindSplitKey_loop kc end_key min_split_key target_sz allow_meta2_splits (r # rest) st =
     (if \<not> Compare (fst r) end_key < 0 then Inr st
      else
        (case DecodeKey (fst r) 0 0 of
           None \<Rightarrow> Inl ''unable to decode key''
         | Some (decoded_key, wall, logic) \<Rightarrow>
             let st1 = split_candidate kc min_split_key target_sz allow_meta2_splits decoded_key st
             in if best_split_diff st1 <s split_diff target_sz st \<and> best_split_key st1 \<noteq> []
                then Inr st1
                else FindSplitKey_loop kc end_key min_split_key target_sz allow_meta2_splits rest
                       (split_account r decoded_key wall logic st1)))"

text \<open>
  \<^verbatim>\<open>MVCCFindSplitKey\<close>: the status and what is stored into \<^verbatim>\<open>*split_key\<close>,
  \<open>None\<close> when nothing is stored (the caller's string stays as it was, empty).
\<close>

definition MVCCFindSplitKey ::
  "keys_constants \<Rightarrow> row list \<Rightarrow> DBKey \<Rightarrow> DBKey \<Rightarrow> DBKey \<Rightarrow> 64 word \<Rightarrow> bool \<Rightarrow>
   DBStatus \<times> bytes option" where
  "MVCCFindSplitKey kc rows start end min_split target_sz allow_meta2_splits =
     (let start_key = EncodeDBKey start;
          end_key = EncodeDBKey end;
          min_split_key = dbkey min_split;
          st0 = \<lparr>size_so_far = 0, best_split_key = start_key,
                 best_split_diff = 0x7FFFFFFFFFFFFFFF, prev_key = [], seen = 0\<rparr>
      in case FindSplitKey_loop kc end_key min_split_key target_sz allow_meta2_splits
                (drop (seek_index rows start_key) rows) st0 of
           Inl err \<Rightarrow> (Some err, None)
         | Inr st \<Rightarrow>
             if best_split_key st = start_key then (kSuccess, None)
             else (kSuccess, ToDBString (best_split_key st)))"

text \<open>The two tests a candidate key has to pass besides not being on the first row.\<close>

definition good_split :: "keys_constants \<Rightarrow> bytes \<Rightarrow> bool \<Rightarrow> bytes \<Rightarrow> bool" where
  "good_split kc min_split_key allow k \<longleftrightarrow>
     IsValidSplitKey kc k allow \<and> slice_compare k min_split_key \<ge> 0"

text \<open>Key constants for examples: no span is reserved.\<close>

definition example_keys :: keys_constants where
  "example_keys =
     \<lparr>kMeta2KeyMax = [3, 255, 255], kSortedNoSplitSpans = [],
      kSortedNoSplitSpansWithoutMeta2Splits = [], kLocalMax = [2]\<rparr>"

section \<open>The MVCC scanner\<close>

subsection \<open>The iterator\<close>

text \<open>
  The position of the \<^verbatim>\<open>rocksdb::Iterator\<close> is \<open>Some i\<close> at row \<open>i\<close> and \<open>None\<close>
  when the iterator is not valid. \<^verbatim>\<open>SeekForPrev(target)\<close> goes to the last row
  whose key is less than the target: this is what \<^verbatim>\<open>iterSeekReverse\<close> says of it
  (``the doc comment on SeekForPrev suggests it positions less than or equal, but
  this is a lie'') and what its callers, which pass the meta key of the key to
  leave, rely on.
\<close>

definition it_seek :: "row list \<Rightarrow> bytes \<Rightarrow> nat option" where
  "it_seek rows target =
     (let i = seek_index rows target in if i < length rows then Some i else None)"

definition it_seek_for_prev :: "row list \<Rightarrow> bytes \<Rightarrow> nat option" where
  "it_seek_for_prev rows target =
     (let i = length (takeWhile (\<lambda>r. Compare (fst r) target < 0) rows)
      in if i = 0 then None else Some (i - 1))"

definition it_first :: "row list \<Rightarrow> nat option" where
  "it_first rows = (if rows = [] then None else Some 0)"

definition it_last :: "row list \<Rightarrow> nat option" where
  "it_last rows = (if rows = [] then None else Some (length rows - 1))"

definition it_next :: "row list \<Rightarrow> nat option \<Rightarrow> nat option" where
  "it_next rows pos =
     (case pos of None \<Rightarrow> None | Some i \<Rightarrow> if i + 1 < length rows then Some (i + 1) else None)"

definition it_prev :: "nat option \<Rightarrow> nat option" where
  "it_prev pos = (case pos of None \<Rightarrow> None | Some i \<Rightarrow> if i = 0 then None else Some (i - 1))"

subsection \<open>The scanner's state\<close>

text \<open>
  The members of \<^verbatim>\<open>mvccScanner\<close>, without their trailing underscores;
  \<open>scan_timestamp\<close> and \<open>scan_txn_id\<close> are \<^verbatim>\<open>timestamp_\<close> and \<^verbatim>\<open>txn_id_\<close>.
  \<open>reverse\<close> is the template parameter, \<open>rows\<close> the store behind
  \<^verbatim>\<open>iter_rep_\<close> and \<open>iter_pos\<close> its position. \<open>status\<close> and
  \<open>uncertainty_timestamp\<close> are the two fields of \<^verbatim>\<open>results_\<close> written during the
  scan, \<open>kvs\<close> and \<open>intents\<close> the two write batches (the pairs put, in order).
  \<^verbatim>\<open>key_buf_\<close> and \<^verbatim>\<open>meta_\<close> are set before every use and are locals here;
  \<^verbatim>\<open>saved_buf_\<close> only holds the bytes \<open>cur_raw_key\<close> and \<open>cur_value\<close> denote
  while \<open>peeked\<close>. \<open>aborted\<close> records that \<^verbatim>\<open>PrevTimestamp\<close> called
  \<^verbatim>\<open>abort()\<close>: the process is gone and nothing after it matters.
\<close>

record scanner =
  reverse :: bool
  rows :: "row list"
  iter_pos :: "nat option"
  start_key :: bytes
  end_key :: bytes
  max_keys :: "64 word"
  scan_timestamp :: DBTimestamp
  scan_txn_id :: bytes
  txn_epoch :: "32 word"
  txn_max_timestamp :: DBTimestamp
  consistent :: bool
  check_uncertainty :: bool
  status :: DBStatus
  uncertainty_timestamp :: DBTimestamp
  kvs :: "row list"
  intents :: "row list"
  peeked :: bool
  cur_raw_key :: bytes
  cur_key :: bytes
  cur_value :: bytes
  cur_timestamp :: DBTimestamp
  iters_before_seek :: int
  aborted :: bool

definition kMaxItersBeforeSeek :: int where
  "kMaxItersBeforeSeek = 10"

text \<open>
  \<^verbatim>\<open>PrevTimestamp\<close>; \<open>None\<close> is the call of \<^verbatim>\<open>abort()\<close>. The largest
  \<^verbatim>\<open>int32_t\<close> is \<open>0x7FFFFFFF\<close>.
\<close>

definition PrevTimestamp :: "DBTimestamp \<Rightarrow> DBTimestamp option" where
  "PrevTimestamp ts =
     (if 0 <s logical ts then Some (ts\<lparr>logical := logical ts - 1\<rparr>)
      else if wall_time ts = 0 then None
      else Some \<lparr>wall_time = wall_time ts - 1, logical = 0x7FFFFFFF\<rparr>)"

text \<open>The conversion \<^verbatim>\<open>%u\<close> of \<^verbatim>\<open>FmtStatus\<close>: an unsigned number in decimal.\<close>

fun fmt_u :: "nat \<Rightarrow> string" where
  "fmt_u n = (if n < 10 then [char_of (48 + n)] else fmt_u (n div 10) @ [char_of (48 + n mod 10)])"

text \<open>The status of case 9 of \<^verbatim>\<open>getAndAdvance\<close>, with the two epochs.\<close>

definition epoch_error :: "32 word \<Rightarrow> 32 word \<Rightarrow> string" where
  "epoch_error e1 e2 =
     ''failed to read with epoch '' @ fmt_u (unat e1)
     @ '' due to a write intent with epoch '' @ fmt_u (unat e2)"

definition setStatus :: "string \<Rightarrow> scanner \<Rightarrow> bool \<times> scanner" where
  "setStatus msg s = (False, s\<lparr>status := Some msg\<rparr>)"

definition uncertaintyError :: "DBTimestamp \<Rightarrow> scanner \<Rightarrow> bool \<times> scanner" where
  "uncertaintyError ts s = (False, s\<lparr>uncertainty_timestamp := ts, kvs := [], intents := []\<rparr>)"

text \<open>
  What \<^verbatim>\<open>DecodeKey\<close> has written into the key and into a zeroed timestamp when
  it returns false: the key is cleared first and set once the split succeeded,
  the wall time and the logical part are written as they are decoded.
\<close>

definition DecodeKey_failed_outputs :: "bytes \<Rightarrow> bytes \<times> DBTimestamp" where
  "DecodeKey_failed_outputs buf =
     (case SplitKey buf of
        None \<Rightarrow> ([], kZeroTimestamp)
      | Some (key, ts) \<Rightarrow>
          (case DecodeUint64 (drop 1 ts) of
             None \<Rightarrow> (key, kZeroTimestamp)
           | Some (w, rest) \<Rightarrow>
               (case DecodeUint32 rest of
                  None \<Rightarrow> (key, \<lparr>wall_time = w, logical = 0\<rparr>)
                | Some (l, rest') \<Rightarrow> (key, \<lparr>wall_time = w, logical = l\<rparr>))))"

definition updateCurrent :: "scanner \<Rightarrow> bool \<times> scanner" where
  "updateCurrent s =
     (case iter_pos s of
        None \<Rightarrow> (False, s)
      | Some i \<Rightarrow>
          let s1 = s\<lparr>cur_raw_key := fst (rows s ! i), cur_value := snd (rows s ! i),
                      cur_timestamp := kZeroTimestamp\<rparr>
          in case DecodeKey (cur_raw_key s1) 0 0 of
               None \<Rightarrow>
                 setStatus ''failed to split mvcc key''
                   (s1\<lparr>cur_key := fst (DecodeKey_failed_outputs (cur_raw_key s1)),
                        cur_timestamp := snd (DecodeKey_failed_outputs (cur_raw_key s1))\<rparr>)
             | Some (key, w, l) \<Rightarrow>
                 (True, s1\<lparr>cur_key := key, cur_timestamp := \<lparr>wall_time = w, logical = l\<rparr>\<rparr>))"

definition clearPeeked :: "scanner \<Rightarrow> scanner" where
  "clearPeeked s = (if reverse s then s\<lparr>peeked := False\<rparr> else s)"

definition iterSeek :: "bytes \<Rightarrow> scanner \<Rightarrow> bool \<times> scanner" where
  "iterSeek key s = updateCurrent ((clearPeeked s)\<lparr>iter_pos := it_seek (rows s) key\<rparr>)"

definition iterNext :: "scanner \<Rightarrow> bool \<times> scanner" where
  "iterNext s =
     (if reverse s \<and> peeked s then
        let s1 = s\<lparr>peeked := False, iter_pos := it_next (rows s) (iter_pos s)\<rparr>
        in if iter_pos s1 = None then (False, s1)
           else updateCurrent (s1\<lparr>iter_pos := it_next (rows s1) (iter_pos s1)\<rparr>)
      else updateCurrent (s\<lparr>iter_pos := it_next (rows s) (iter_pos s)\<rparr>))"

definition iterPrev :: "scanner \<Rightarrow> bool \<times> scanner" where
  "iterPrev s =
     (if peeked s then updateCurrent (s\<lparr>peeked := False\<rparr>)
      else updateCurrent (s\<lparr>iter_pos := it_prev (iter_pos s)\<rparr>))"

text \<open>
  \<^verbatim>\<open>iterPeekPrev\<close> gives its result, the peeked key and the new state. The key
  under the iterator is read only where the iterator is valid.
\<close>

definition peek_key :: "scanner \<Rightarrow> bool \<times> bytes \<times> scanner" where
  "peek_key s =
     (case iter_pos s of
        None \<Rightarrow> (False, [], snd (setStatus ''failed to split mvcc key'' s))
      | Some i \<Rightarrow>
          (case SplitKey (fst (rows s ! i)) of
             None \<Rightarrow> (False, [], snd (setStatus ''failed to split mvcc key'' s))
           | Some (peeked_key, dummy_timestamp) \<Rightarrow> (True, peeked_key, s)))"

definition iterPeekPrev :: "scanner \<Rightarrow> bool \<times> bytes \<times> scanner" where
  "iterPeekPrev s =
     (if \<not> peeked s then
        let s1 = s\<lparr>peeked := True\<rparr>
        in case SplitKey (cur_raw_key s1) of
             None \<Rightarrow> (False, [], snd (setStatus ''failed to split mvcc key'' s1))
           | Some (key, dummy_timestamp) \<Rightarrow>
               let s2 = s1\<lparr>cur_key := key, iter_pos := it_prev (iter_pos s1)\<rparr>
               in if iter_pos s2 = None then
                    let r = updateCurrent (s2\<lparr>peeked := False, iter_pos := it_first (rows s2)\<rparr>)
                    in (fst r, [], snd r)
                  else peek_key s2
      else peek_key s)"

subsection \<open>Moving between keys\<close>

text \<open>
  The \<^verbatim>\<open>for\<close> loops run \<^verbatim>\<open>iters_before_seek_\<close> times at most; their first
  argument counts the iterations left. Both places in \<^verbatim>\<open>nextKey\<close> and
  \<^verbatim>\<open>backwardLatestVersion\<close> that raise the budget take the \<^verbatim>\<open>std::max\<close> with
  \<^verbatim>\<open>kMaxItersBeforeSeek\<close>, as the source does.
\<close>

fun nextKey_loop :: "nat \<Rightarrow> bytes \<Rightarrow> scanner \<Rightarrow> bool \<times> scanner" where
  "nextKey_loop 0 key_buf s =
     iterSeek (key_buf @ [0, 0]) (s\<lparr>iters_before_seek := max 1 (iters_before_seek s - 1)\<rparr>)"
| "nextKey_loop (Suc k) key_buf s =
     (case iterNext s of
        (False, s1) \<Rightarrow> (False, s1)
      | (True, s1) \<Rightarrow>
          if cur_key s1 \<noteq> key_buf then
            (True, s1\<lparr>iters_before_seek := max kMaxItersBeforeSeek (iters_before_seek s1 + 1)\<rparr>)
          else nextKey_loop k key_buf s1)"

definition nextKey :: "scanner \<Rightarrow> bool \<times> scanner" where
  "nextKey s =
     (if length (cur_key s) + 1 = length (end_key s)
         \<and> take (length (cur_key s)) (end_key s) = cur_key s
         \<and> end_key s ! length (cur_key s) = 0
      then (False, s)
      else nextKey_loop (nat (iters_before_seek s)) (cur_key s) s)"

fun backwardLatestVersion_loop :: "nat \<Rightarrow> bytes \<Rightarrow> scanner \<Rightarrow> bool \<times> scanner" where
  "backwardLatestVersion_loop 0 key_buf s =
     iterSeek (key_buf @ [0]) (s\<lparr>iters_before_seek := max 1 (iters_before_seek s - 1)\<rparr>)"
| "backwardLatestVersion_loop (Suc k) key_buf s =
     (case iterPeekPrev s of
        (False, peeked_key, s1) \<Rightarrow> (False, s1)
      | (True, peeked_key, s1) \<Rightarrow>
          if peeked_key \<noteq> key_buf then
            (True, s1\<lparr>iters_before_seek := max kMaxItersBeforeSeek (iters_before_seek s1 + 1)\<rparr>)
          else
            (case iterPrev s1 of
               (False, s2) \<Rightarrow> (False, s2)
             | (True, s2) \<Rightarrow> backwardLatestVersion_loop k key_buf s2))"

definition backwardLatestVersion :: "bytes \<Rightarrow> int \<Rightarrow> scanner \<Rightarrow> bool \<times> scanner" where
  "backwardLatestVersion key i s =
     backwardLatestVersion_loop (nat (iters_before_seek s - i)) key s"

definition iterSeekReverse :: "bytes \<Rightarrow> scanner \<Rightarrow> bool \<times> scanner" where
  "iterSeekReverse key s =
     (case updateCurrent ((clearPeeked s)\<lparr>iter_pos := it_seek_for_prev (rows s) key\<rparr>) of
        (False, s1) \<Rightarrow> (False, s1)
      | (True, s1) \<Rightarrow>
          if cur_timestamp s1 = kZeroTimestamp then (True, s1)
          else backwardLatestVersion (cur_key s1) 0 s1)"

text \<open>
  The loop of \<^verbatim>\<open>prevKey\<close>; \<open>i\<close> is its counter, handed on to
  \<^verbatim>\<open>backwardLatestVersion\<close>.
\<close>

fun prevKey_loop :: "nat \<Rightarrow> int \<Rightarrow> bytes \<Rightarrow> scanner \<Rightarrow> bool \<times> scanner" where
  "prevKey_loop 0 i key_buf s =
     iterSeekReverse (key_buf @ [0]) (s\<lparr>iters_before_seek := max 1 (iters_before_seek s - 1)\<rparr>)"
| "prevKey_loop (Suc k) i key_buf s =
     (case iterPeekPrev s of
        (False, peeked_key, s1) \<Rightarrow> (False, s1)
      | (True, peeked_key, s1) \<Rightarrow>
          if peeked_key \<noteq> key_buf then backwardLatestVersion peeked_key (i + 1) s1
          else
            (case iterPrev s1 of
               (False, s2) \<Rightarrow> (False, s2)
             | (True, s2) \<Rightarrow> prevKey_loop k (i + 1) key_buf s2))"

text \<open>
  \<^verbatim>\<open>prevKey\<close> compares the encoded key under the iterator with the end key as
  slices.
\<close>

definition prevKey :: "bytes \<Rightarrow> scanner \<Rightarrow> bool \<times> scanner" where
  "prevKey key s =
     (if peeked s \<and>
         slice_compare (case iter_pos s of None \<Rightarrow> [] | Some i \<Rightarrow> fst (rows s ! i)) (end_key s) < 0
      then (False, s)
      else prevKey_loop (nat (iters_before_seek s)) 0 key s)"

definition advanceKey :: "scanner \<Rightarrow> bool \<times> scanner" where
  "advanceKey s = (if reverse s then prevKey (cur_key s) s else nextKey s)"

definition advanceKeyAtEnd :: "scanner \<Rightarrow> bool \<times> scanner" where
  "advanceKeyAtEnd s =
     (if reverse s then
        (case updateCurrent ((clearPeeked s)\<lparr>iter_pos := it_last (rows s)\<rparr>) of
           (False, s1) \<Rightarrow> (False, s1)
         | (True, s1) \<Rightarrow> advanceKey s1)
      else (False, s))"

definition advanceKeyAtNewKey :: "bytes \<Rightarrow> scanner \<Rightarrow> bool \<times> scanner" where
  "advanceKeyAtNewKey key s = (if reverse s then prevKey key s else (True, s))"

text \<open>\<^verbatim>\<open>kvs_->Count()\<close> is an \<^verbatim>\<open>int\<close>, compared with the \<^verbatim>\<open>int64_t\<close> limit.\<close>

definition addAndAdvance :: "bytes \<Rightarrow> scanner \<Rightarrow> bool \<times> scanner" where
  "addAndAdvance val s =
     (if length val > 0 then
        let s1 = s\<lparr>kvs := kvs s @ [(cur_raw_key s, val)]\<rparr>
        in if int (length (kvs s1)) > sint (max_keys s1) then (False, s1)
           else advanceKey s1
      else advanceKey s)"

subsection \<open>Finding the version to read\<close>

definition found_version :: "bool \<Rightarrow> scanner \<Rightarrow> bool \<times> scanner" where
  "found_version check s =
     (if check \<and> ts_less (scan_timestamp s) (cur_timestamp s)
      then uncertaintyError (cur_timestamp s) s
      else addAndAdvance (cur_value s) s)"

fun seekVersion_loop :: "nat \<Rightarrow> bytes \<Rightarrow> DBTimestamp \<Rightarrow> bool \<Rightarrow> scanner \<Rightarrow> bool \<times> scanner" where
  "seekVersion_loop 0 key_buf desired_timestamp check s =
     (case iterSeek (EncodeKey key_buf (wall_time desired_timestamp) (logical desired_timestamp))
             (s\<lparr>iters_before_seek := max 1 (iters_before_seek s - 1)\<rparr>) of
        (False, s1) \<Rightarrow> advanceKeyAtEnd s1
      | (True, s1) \<Rightarrow>
          if cur_key s1 \<noteq> key_buf then advanceKeyAtNewKey key_buf s1
          else if ts_ge desired_timestamp (cur_timestamp s1) then found_version check s1
          else advanceKey s1)"
| "seekVersion_loop (Suc k) key_buf desired_timestamp check s =
     (case iterNext s of
        (False, s1) \<Rightarrow> advanceKeyAtEnd s1
      | (True, s1) \<Rightarrow>
          if cur_key s1 \<noteq> key_buf then
            advanceKeyAtNewKey key_buf
              (s1\<lparr>iters_before_seek := min kMaxItersBeforeSeek (iters_before_seek s1 + 1)\<rparr>)
          else if ts_ge desired_timestamp (cur_timestamp s1) then
            found_version check
              (s1\<lparr>iters_before_seek := min kMaxItersBeforeSeek (iters_before_seek s1 + 1)\<rparr>)
          else seekVersion_loop k key_buf desired_timestamp check s1)"

definition seekVersion :: "DBTimestamp \<Rightarrow> bool \<Rightarrow> scanner \<Rightarrow> bool \<times> scanner" where
  "seekVersion desired_timestamp check s =
     seekVersion_loop (nat (iters_before_seek s)) (cur_key s) desired_timestamp check s"

text \<open>
  Seeking the version before an intent's timestamp; \<^verbatim>\<open>PrevTimestamp\<close> aborts
  on the zero timestamp.
\<close>

definition seekVersion_prev :: "DBTimestamp \<Rightarrow> scanner \<Rightarrow> bool \<times> scanner" where
  "seekVersion_prev ts s =
     (case PrevTimestamp ts of
        None \<Rightarrow> (False, s\<lparr>aborted := True\<rparr>)
      | Some p \<Rightarrow> seekVersion p False s)"

subsection \<open>One key\<close>

definition getAndAdvance :: "'p protobuf \<Rightarrow> scanner \<Rightarrow> bool \<times> scanner" where
  "getAndAdvance pb s =
     (let is_value = (cur_timestamp s \<noteq> kZeroTimestamp) in
      if is_value then
        if ts_ge (scan_timestamp s) (cur_timestamp s) then addAndAdvance (cur_value s) s
        else if check_uncertainty s then
          if ts_ge (txn_max_timestamp s) (cur_timestamp s) then uncertaintyError (cur_timestamp s) s
          else seekVersion (txn_max_timestamp s) True s
        else seekVersion (scan_timestamp s) False s
      else
        (case parse_meta pb (cur_value s) of
           None \<Rightarrow> setStatus ''unable to decode MVCCMetadata'' s
         | Some meta \<Rightarrow>
             (case raw_bytes meta of
                Some raw \<Rightarrow> addAndAdvance raw s
              | None \<Rightarrow>
                  (case txn meta of
                     None \<Rightarrow> setStatus ''intent without transaction'' s
                   | Some mtxn \<Rightarrow>
                       let own_intent = (txn_id mtxn = scan_txn_id s);
                           meta_timestamp = timestamp meta
                       in if ts_less (scan_timestamp s) meta_timestamp \<and> \<not> own_intent then
                            seekVersion (scan_timestamp s) False s
                          else if \<not> consistent s then
                            seekVersion_prev meta_timestamp
                              (s\<lparr>intents := intents s @ [(cur_raw_key s, cur_value s)]\<rparr>)
                          else if \<not> own_intent then
                            advanceKey (s\<lparr>intents := intents s @ [(cur_raw_key s, cur_value s)]\<rparr>)
                          else if txn_epoch s = epoch mtxn then
                            seekVersion meta_timestamp False s
                          else if txn_epoch s < epoch mtxn then
                            setStatus (epoch_error (txn_epoch s) (epoch mtxn)) s
                          else seekVersion_prev meta_timestamp s))))"

subsection \<open>Get and scan\<close>

record DBTxn =
  dbtxn_id :: bytes
  dbtxn_epoch :: "32 word"
  dbtxn_max_timestamp :: DBTimestamp

text \<open>
  \<^verbatim>\<open>DBScanResults\<close>: \<^verbatim>\<open>data\<close> and \<^verbatim>\<open>intents\<close> are the pairs put into the two
  batches (empty when nothing is set).
\<close>

record DBScanResults =
  res_status :: DBStatus
  res_data :: "row list"
  res_intents :: "row list"
  res_uncertainty_timestamp :: DBTimestamp
  res_aborted :: bool

text \<open>The constructor of \<^verbatim>\<open>mvccScanner\<close>.\<close>

definition mvccScanner ::
  "bool \<Rightarrow> row list \<Rightarrow> bytes \<Rightarrow> bytes \<Rightarrow> DBTimestamp \<Rightarrow> 64 word \<Rightarrow> DBTxn \<Rightarrow> bool \<Rightarrow> scanner" where
  "mvccScanner rv store start end_k ts max_k t cons =
     \<lparr>reverse = rv, rows = store, iter_pos = None, start_key = start, end_key = end_k,
      max_keys = max_k, scan_timestamp = ts, scan_txn_id = dbtxn_id t,
      txn_epoch = dbtxn_epoch t, txn_max_timestamp = dbtxn_max_timestamp t, consistent = cons,
      check_uncertainty = ts_less ts (dbtxn_max_timestamp t), status = kSuccess,
      uncertainty_timestamp = kZeroTimestamp, kvs = [], intents = [], peeked = False,
      cur_raw_key = [], cur_key = [], cur_value = [], cur_timestamp = kZeroTimestamp,
      iters_before_seek = kMaxItersBeforeSeek div 2, aborted = False\<rparr>"

text \<open>
  The results as they stand in \<^verbatim>\<open>results_\<close> (when the first seek fails) and
  after \<^verbatim>\<open>fillResults\<close>, which hands over the batches unless a status is set.
\<close>

definition rawResults :: "scanner \<Rightarrow> DBScanResults" where
  "rawResults s =
     \<lparr>res_status = status s, res_data = [], res_intents = [],
      res_uncertainty_timestamp = uncertainty_timestamp s, res_aborted = aborted s\<rparr>"

definition fillResults :: "scanner \<Rightarrow> DBScanResults" where
  "fillResults s =
     (if status s = None then (rawResults s)\<lparr>res_data := kvs s, res_intents := intents s\<rparr>
      else rawResults s)"

definition scanner_get :: "'p protobuf \<Rightarrow> scanner \<Rightarrow> DBScanResults" where
  "scanner_get pb s =
     (case iterSeek (EncodeKey (start_key s) 0 0) s of
        (False, s1) \<Rightarrow> rawResults s1
      | (True, s1) \<Rightarrow>
          if cur_key s1 = start_key s1 then fillResults (snd (getAndAdvance pb s1))
          else fillResults s1)"

text \<open>
  The two \<^verbatim>\<open>for\<close> loops of \<^verbatim>\<open>scan\<close>. Nothing in the loop bounds the number of
  its iterations, so the model counts them down from a given number; \<open>None\<close>
  means that this number did not suffice.
\<close>

fun scan_loop :: "nat \<Rightarrow> 'p protobuf \<Rightarrow> scanner \<Rightarrow> scanner option" where
  "scan_loop 0 pb s = None"
| "scan_loop (Suc fuel) pb s =
     (if (if reverse s then slice_compare (cur_key s) (end_key s) \<ge> 0
          else slice_compare (cur_key s) (end_key s) < 0)
      then (case getAndAdvance pb s of
              (False, s1) \<Rightarrow> Some s1
            | (True, s1) \<Rightarrow> scan_loop fuel pb s1)
      else Some s)"

definition scanner_scan :: "nat \<Rightarrow> 'p protobuf \<Rightarrow> scanner \<Rightarrow> DBScanResults option" where
  "scanner_scan fuel pb s =
     (case (if reverse s then iterSeekReverse (EncodeKey (start_key s) 0 0) s
            else iterSeek (EncodeKey (start_key s) 0 0) s) of
        (False, s1) \<Rightarrow> Some (rawResults s1)
      | (True, s1) \<Rightarrow> map_option fillResults (scan_loop fuel pb s1))"

definition MVCCGet ::
  "'p protobuf \<Rightarrow> row list \<Rightarrow> bytes \<Rightarrow> DBTimestamp \<Rightarrow> DBTxn \<Rightarrow> bool \<Rightarrow> DBScanResults" where
  "MVCCGet pb store key ts t cons = scanner_get pb (mvccScanner False store key [] ts 0 t cons)"

definition MVCCScan ::
  "nat \<Rightarrow> 'p protobuf \<Rightarrow> row list \<Rightarrow> bytes \<Rightarrow> bytes \<Rightarrow> DBTimestamp \<Rightarrow> 64 word \<Rightarrow> DBTxn \<Rightarrow> bool \<Rightarrow>
   bool \<Rightarrow> DBScanResults option" where
  "MVCCScan fuel pb store start end_k ts max_k t cons rv =
     (if rv then scanner_scan fuel pb (mvccScanner True store end_k start ts max_k t cons)
      else scanner_scan fuel pb (mvccScanner False store start end_k ts max_k t cons))"

subsection \<open>Notions for stating the scanner's properties\<close>

text \<open>
  Moving the iterator changes the position, the current row, the peek flag,
  the budget and possibly the status; \<open>same_scan\<close> says that everything else
  is as before.
\<close>

definition same_scan :: "scanner \<Rightarrow> scanner \<Rightarrow> bool" where
  "same_scan s s' \<longleftrightarrow>
     reverse s' = reverse s \<and> rows s' = rows s \<and> start_key s' = start_key s
     \<and> end_key s' = end_key s \<and> max_keys s' = max_keys s
     \<and> scan_timestamp s' = scan_timestamp s \<and> scan_txn_id s' = scan_txn_id s
     \<and> txn_epoch s' = txn_epoch s \<and> txn_max_timestamp s' = txn_max_timestamp s
     \<and> consistent s' = consistent s \<and> check_uncertainty s' = check_uncertainty s
     \<and> uncertainty_timestamp s' = uncertainty_timestamp s \<and> kvs s' = kvs s
     \<and> intents s' = intents s \<and> aborted s' = aborted s"

text \<open>
  What one step may do to the rows collected so far: nothing, clear them, or
  add one row with a non-empty value whose key decodes to the user key \<open>K\<close>
  and, if the step asks to go on (\<open>b\<close>), without exceeding the limit.
\<close>

definition emits :: "bytes \<Rightarrow> bool \<Rightarrow> scanner \<Rightarrow> scanner \<Rightarrow> bool" where
  "emits K b s s' \<longleftrightarrow>
     max_keys s' = max_keys s \<and>
     (kvs s' = kvs s \<or> kvs s' = [] \<or>
      (\<exists>k v w l. v \<noteq> [] \<and> kvs s' = kvs s @ [(k, v)]
          \<and> (b \<longrightarrow> int (length (kvs s')) \<le> sint (max_keys s))
          \<and> DecodeKey k 0 0 = Some (K, w, l)))"

definition emits_any :: "bool \<Rightarrow> scanner \<Rightarrow> scanner \<Rightarrow> bool" where
  "emits_any b s s' \<longleftrightarrow>
     max_keys s' = max_keys s \<and>
     (kvs s' = kvs s \<or> kvs s' = [] \<or>
      (\<exists>k v. v \<noteq> [] \<and> kvs s' = kvs s @ [(k, v)]
          \<and> (b \<longrightarrow> int (length (kvs s')) \<le> sint (max_keys s))))"

text \<open>The current key is the decoded current raw key.\<close>

definition decodes_cur :: "scanner \<Rightarrow> bool" where
  "decodes_cur s \<longleftrightarrow> (\<exists>w l. DecodeKey (cur_raw_key s) 0 0 = Some (cur_key s, w, l))"


subsection \<open>Example stores\<close>

text \<open>
  Timestamps without a logical part, a reader without a transaction, and a
  store with the keys \<^verbatim>\<open>j\<close>, \<^verbatim>\<open>k\<close>, \<^verbatim>\<open>l\<close>, \<^verbatim>\<open>m\<close> where \<^verbatim>\<open>k\<close> was deleted at
  time 5 after a write at time 3.
\<close>

definition example_ts :: "64 word \<Rightarrow> DBTimestamp" where
  "example_ts w = \<lparr>wall_time = w, logical = 0\<rparr>"

definition example_no_txn :: DBTxn where
  "example_no_txn = \<lparr>dbtxn_id = [], dbtxn_epoch = 0, dbtxn_max_timestamp = kZeroTimestamp\<rparr>"

definition example_store :: "row list" where
  "example_store =
     [(EncodeKey [106] 2 0, [1]), (EncodeKey [107] 5 0, []), (EncodeKey [107] 3 0, [3]),
      (EncodeKey [108] 1 0, [8]), (EncodeKey [109] 1 0, [9])]"

text \<open>
  The scanner of a forward scan of the example store at time 4 with the limit
  0, after the first seek of \<^verbatim>\<open>scan\<close>.
\<close>

definition example_state :: scanner where
  "example_state =
     snd (iterSeek (EncodeKey [] 0 0)
            (mvccScanner False example_store [] [255] (example_ts 4) 0 example_no_txn True))"

subsection \<open>Well-formed stores and the scanner's position\<close>

text \<open>
  The user key and the timestamp of a row, as \<^verbatim>\<open>DecodeKey\<close> reads them from the
  row's key into zeroed outputs.
\<close>

definition row_key :: "row \<Rightarrow> bytes" where
  "row_key r = (case DecodeKey (fst r) 0 0 of Some (k, w, l) \<Rightarrow> k | None \<Rightarrow> [])"

definition row_ts :: "row \<Rightarrow> DBTimestamp" where
  "row_ts r = (case DecodeKey (fst r) 0 0 of
                 Some (k, w, l) \<Rightarrow> \<lparr>wall_time = w, logical = l\<rparr> | None \<Rightarrow> kZeroTimestamp)"

text \<open>
  A store as the engine keeps it: every key is the encoding of a user key and a
  timestamp with non-negative parts, and the rows are strictly ascending in
  the comparator's order.
\<close>

definition ts_nonneg :: "DBTimestamp \<Rightarrow> bool" where
  "ts_nonneg t \<longleftrightarrow> 0 \<le>s wall_time t \<and> 0 \<le>s logical t"

definition canonical_row :: "row \<Rightarrow> bool" where
  "canonical_row r \<longleftrightarrow>
     fst r = EncodeKey (row_key r) (wall_time (row_ts r)) (logical (row_ts r)) \<and> ts_nonneg (row_ts r)"

definition wf_store :: "row list \<Rightarrow> bool" where
  "wf_store store \<longleftrightarrow>
     list_all canonical_row store \<and> sorted_wrt (\<lambda>a b. Compare (fst a) (fst b) < 0) store"

text \<open>
  The row the scanner's current key and value belong to: the row under the
  iterator, or the one after it while a reverse scan has peeked at the previous
  row. \<open>at_row s p\<close> says that the current fields hold row \<open>p\<close>.
\<close>

definition cur_index :: "scanner \<Rightarrow> nat option" where
  "cur_index s = (if reverse s \<and> peeked s then map_option Suc (iter_pos s) else iter_pos s)"

definition at_row :: "scanner \<Rightarrow> nat \<Rightarrow> bool" where
  "at_row s p \<longleftrightarrow>
     cur_index s = Some p \<and> p < length (rows s) \<and> cur_raw_key s = fst (rows s ! p)
     \<and> cur_value s = snd (rows s ! p) \<and> cur_key s = row_key (rows s ! p)
     \<and> cur_timestamp s = row_ts (rows s ! p)"

text \<open>A forward scan over rows that all decode.\<close>

definition fwd :: "scanner \<Rightarrow> bool" where
  "fwd s \<longleftrightarrow> \<not> reverse s \<and> list_all canonical_row (rows s)"
text \<open>
  The index of the first row after row \<open>p\<close> that belongs to another user key
  (the length of the store if there is none).
\<close>

definition key_end :: "row list \<Rightarrow> nat \<Rightarrow> nat" where
  "key_end store p =
     Suc p + length (takeWhile (\<lambda>r. row_key r = row_key (store ! p)) (drop (Suc p) store))"

text \<open>
  The rows of the user key of row \<open>p\<close> from row \<open>p\<close> on, in the order of the
  store, which is from the newest version to the oldest; the first of them
  whose timestamp is at most \<open>d\<close>; and what reading a version adds to the result:
  the row, unless there is none or its value is empty.
\<close>

definition key_versions :: "row list \<Rightarrow> nat \<Rightarrow> row list" where
  "key_versions store p = takeWhile (\<lambda>r. row_key r = row_key (store ! p)) (drop p store)"

definition newest_le :: "DBTimestamp \<Rightarrow> row list \<Rightarrow> row option" where
  "newest_le d vs = List.find (\<lambda>r. ts_le (row_ts r) d) vs"


text \<open>
  Where the first seek of a get or of a forward scan from the key \<open>K\<close> puts the
  iterator: at the first row at or after the meta key of \<open>K\<close>.
\<close>

definition first_row :: "row list \<Rightarrow> bytes \<Rightarrow> nat" where
  "first_row store K = seek_index store (EncodeKey K 0 0)"
text \<open>
  Examples: a transaction \<^verbatim>\<open>X\<close> with an epoch and a maximal timestamp; the store
  of the uncertainty scenario; a store where \<^verbatim>\<open>X\<close> has an intent on \<^verbatim>\<open>k\<close> at
  time 7 (epoch 2) over a version at time 3; and a store where another
  transaction has an intent on \<^verbatim>\<open>k\<close> at time 20 over a version at time 10.
\<close>

definition example_txn :: "32 word \<Rightarrow> 64 word \<Rightarrow> DBTxn" where
  "example_txn e m = \<lparr>dbtxn_id = [88], dbtxn_epoch = e, dbtxn_max_timestamp = example_ts m\<rparr>"

definition example_store_uncertain :: "row list" where
  "example_store_uncertain = [(EncodeKey [107] 10 0, [10])]"


definition example_store_foreign_intent :: "row list" where
  "example_store_foreign_intent =
     [(EncodeKey [107] 0 0, [2, 1, 20, 89]), (EncodeKey [107] 20 0, [20]),
      (EncodeKey [107] 10 0, [10])]"

text \<open>
  The scanners of forward scans of these stores from \<^verbatim>\<open>k\<close>, after the first seek:
  over the store of the uncertainty scenario at time 5 by a transaction with
  the maximal timestamp 12, and over the store with the intent of \<^verbatim>\<open>X\<close> at time
  4 by \<^verbatim>\<open>X\<close> in a given epoch; and the metadata of that intent.
\<close>

definition example_state_uncertain :: scanner where
  "example_state_uncertain =
     snd (iterSeek (EncodeKey [107] 0 0)
            (mvccScanner False example_store_uncertain [107] [107, 0] (example_ts 5) 10
               (example_txn 0 12) True))"


section \<open>Properties of the key codec and the comparator\<close>

subsection \<open>Big-endian integers\<close>

lemma byte_step64:
  "push_bit 8 (drop_bit (m + 8) w) OR ucast (ucast (drop_bit m w) :: 8 word) = drop_bit m (w::64 word)"
proof (rule bit_word_eqI)
  fix n assume nb: "n < LENGTH(64)"
  show "bit (push_bit 8 (drop_bit (m + 8) w) OR ucast (ucast (drop_bit m w) :: 8 word)) n = bit (drop_bit m w) n"
  proof (cases "n < 8")
    case True
    then show ?thesis by (simp add: bit_simps)
  next
    case False
    then have "m + 8 + (n - 8) = m + n" by simp
    with False nb show ?thesis by (simp add: bit_simps)
  qed
qed

lemma byte_step32:
  "push_bit 8 (drop_bit (m + 8) w) OR ucast (ucast (drop_bit m w) :: 8 word) = drop_bit m (w::32 word)"
proof (rule bit_word_eqI)
  fix n assume nb: "n < LENGTH(32)"
  show "bit (push_bit 8 (drop_bit (m + 8) w) OR ucast (ucast (drop_bit m w) :: 8 word)) n = bit (drop_bit m w) n"
  proof (cases "n < 8")
    case True
    then show ?thesis by (simp add: bit_simps)
  next
    case False
    then have "m + 8 + (n - 8) = m + n" by simp
    with False nb show ?thesis by (simp add: bit_simps)
  qed
qed

lemma be64_enc: "be64 (EncodeUint64 w) = w"
proof -
  have "be64 (EncodeUint64 w) = drop_bit 0 w"
    unfolding be64_def EncodeUint64_def
    using byte_step64[of 0 w] byte_step64[of 8 w] byte_step64[of 16 w] byte_step64[of 24 w]
      byte_step64[of 32 w] byte_step64[of 40 w] byte_step64[of 48 w] byte_step64[of 56 w]
    by (simp add: drop_bit_word_beyond)
  then show ?thesis by simp
qed

lemma be32_enc: "be32 (EncodeUint32 w) = w"
proof -
  have "be32 (EncodeUint32 w) = drop_bit 0 w"
    unfolding be32_def EncodeUint32_def
    using byte_step32[of 0 w] byte_step32[of 8 w] byte_step32[of 16 w] byte_step32[of 24 w]
    by (simp add: drop_bit_word_beyond)
  then show ?thesis by simp
qed

subsection \<open>Splitting and decoding\<close>

lemma length_EncodeUint64 [simp]: "length (EncodeUint64 w) = 8" by (simp add: EncodeUint64_def)
lemma length_EncodeUint32 [simp]: "length (EncodeUint32 w) = 4" by (simp add: EncodeUint32_def)

lemma len8: "LENGTH(8) = 8" by simp
lemma len64: "LENGTH(64) = 64" by simp

lemma ucast_scast_byte: "ucast (scast c :: 64 word) = (c :: byte)"
  by (rule bit_word_eqI) (auto simp add: bit_simps)

lemma char_to_size_t_eq_iff:
  assumes "n < 128"
  shows "char_to_size_t c = n \<longleftrightarrow> unat c = n"
proof
  assume "char_to_size_t c = n"
  then have "of_nat (unat (scast c :: 64 word)) = (of_nat n :: 64 word)"
    by (simp add: char_to_size_t_def)
  then have "(scast c :: 64 word) = of_nat n"
    by simp
  then have "c = ucast (of_nat n :: 64 word)"
    using ucast_scast_byte[of c] by simp
  then have "unat c = take_bit 8 (unat (of_nat n :: 64 word))"
    by (simp only: unsigned_ucast_eq len8)
  moreover have "n < 2 ^ 64" using assms by simp
  then have "unat (of_nat n :: 64 word) = n"
    by (simp only: unat_of_nat len64 mod_less)
  moreover have "take_bit 8 n = n" using assms by (simp add: take_bit_nat_eq_self_iff)
  ultimately show "unat c = n" by simp
next
  assume u: "unat c = n"
  have "sint c = int n"
  proof -
    have lt: "uint c < 2 ^ 7" using u assms by (simp add: uint_nat)
    have "- 128 \<le> uint c" using uint_ge_0[of c] by linarith
    with lt have "sint c = uint c"
      by (simp add: sint_uint signed_take_bit_int_eq_self_iff)
    with u show ?thesis by (simp add: uint_nat)
  qed
  then have "(scast c :: 64 word) = of_nat n" 
    by (simp add: scast_eq)
  with assms show "char_to_size_t c = n" 
    by (simp add: char_to_size_t_def unat_of_nat take_bit_eq_mod)
qed

lemma SplitKey_Some:
  assumes "SplitKey buf = Some (key, ts)"
  shows "length ts = char_to_size_t (last buf)" "buf = key @ ts @ [last buf]"
    "char_to_size_t (last buf) < length buf"
proof -
  let ?s = "char_to_size_t (last buf)"
  let ?n = "length buf - ?s - 1"
  from assms have ne: "buf \<noteq> []" and lt: "?s < length buf"
    and k: "key = take ?n buf" and t: "ts = take ?s (drop ?n buf)"
    by (auto simp add: SplitKey_def Let_def split: if_splits)
  show "?s < length buf" by (rule lt)
  show l: "length ts = ?s" using lt t by simp
  have "drop ?n buf = take ?s (drop ?n buf) @ drop ?s (drop ?n buf)"
    by (simp only: append_take_drop_id)
  moreover have "drop ?s (drop ?n buf) = drop (length buf - 1) buf" using lt by (simp add: add.commute)
  moreover have "drop (length buf - 1) buf = [last buf]" using ne
    by (metis append_butlast_last_id append_eq_conv_conj length_butlast)
  ultimately have "drop ?n buf = ts @ [last buf]" using t by simp
  then show "buf = key @ ts @ [last buf]" using k by (metis append_take_drop_id)
qed

lemma SplitKey_append:
  assumes "char_to_size_t c = length ts"
  shows "SplitKey (key @ ts @ [c]) = Some (key, ts)"
  using assms by (simp add: SplitKey_def Let_def)

lemma DecodeTimestamp_Some_iff:
  "(\<exists>w l. DecodeTimestamp ts = Some (w, l, [])) \<longleftrightarrow> length ts = 8 \<or> length ts = 12"
  by (auto simp add: DecodeTimestamp_def DecodeUint64_def DecodeUint32_def split: option.splits)

lemma SplitKey_Some_ex:
  assumes "buf \<noteq> []" "char_to_size_t (last buf) < length buf"
  shows "\<exists>key ts. SplitKey buf = Some (key, ts)"
  using assms by (simp add: SplitKey_def Let_def)

lemma DecodeKey_Some_iff:
  "DecodeKey buf w0 l0 \<noteq> None \<longleftrightarrow>
     buf \<noteq> [] \<and> unat (last buf) < length buf \<and> unat (last buf) \<in> {0, 9, 13}"
proof
  assume d: "DecodeKey buf w0 l0 \<noteq> None"
  then obtain key ts where sp: "SplitKey buf = Some (key, ts)"
    by (auto simp add: DecodeKey_def split: option.splits)
  note s = SplitKey_Some[OF sp]
  have ne: "buf \<noteq> []" using s(3) by auto
  show "buf \<noteq> [] \<and> unat (last buf) < length buf \<and> unat (last buf) \<in> {0, 9, 13}"
  proof (cases "length ts > 0")
    case False
    then have "char_to_size_t (last buf) = 0" using s(1) by simp
    then have "unat (last buf) = 0" using char_to_size_t_eq_iff[of 0 "last buf"] by simp
    with ne show ?thesis by simp
  next
    case True
    with d sp have "\<exists>w l. DecodeTimestamp (drop 1 ts) = Some (w, l, [])"
      by (auto simp add: DecodeKey_def split: option.splits if_splits)
    then have "length (drop 1 ts) = 8 \<or> length (drop 1 ts) = 12"
      by (simp only: DecodeTimestamp_Some_iff)
    then have "char_to_size_t (last buf) = 9 \<or> char_to_size_t (last buf) = 13"
      using s(1) by auto
    then have "unat (last buf) = 9 \<or> unat (last buf) = 13"
      using char_to_size_t_eq_iff[of 9 "last buf"] char_to_size_t_eq_iff[of 13 "last buf"] by simp
    moreover from this have "unat (last buf) = char_to_size_t (last buf)"
      using char_to_size_t_eq_iff[of 9 "last buf"] char_to_size_t_eq_iff[of 13 "last buf"] by auto
    ultimately show ?thesis using ne s(3) by auto
  qed
next
  assume a: "buf \<noteq> [] \<and> unat (last buf) < length buf \<and> unat (last buf) \<in> {0, 9, 13}"
  then have c: "char_to_size_t (last buf) = unat (last buf)"
    using char_to_size_t_eq_iff[of "unat (last buf)" "last buf"] by auto
  with a obtain key ts where sp: "SplitKey buf = Some (key, ts)"
    using SplitKey_Some_ex[of buf] by auto
  note s = SplitKey_Some[OF sp]
  show "DecodeKey buf w0 l0 \<noteq> None"
  proof (cases "length ts > 0")
    case False
    with sp show ?thesis by (simp add: DecodeKey_def)
  next
    case True
    with a c s(1) have "length (drop 1 ts) = 8 \<or> length (drop 1 ts) = 12" by auto
    then obtain w l where "DecodeTimestamp (drop 1 ts) = Some (w, l, [])"
      using DecodeTimestamp_Some_iff[of "drop 1 ts"] by blast
    with sp True show ?thesis by (simp add: DecodeKey_def)
  qed
qed

lemma EncodeUint32_ne [simp]: "EncodeUint32 l \<noteq> []"
  by (simp add: EncodeUint32_def)

lemma DecodeTimestamp_Encode:
  "DecodeTimestamp (EncodeTimestamp w l) = Some (w, l, [])"
  by (simp add: DecodeTimestamp_def EncodeTimestamp_def DecodeUint64_def DecodeUint32_def
      be64_enc be32_enc)

lemma EncodeKey_meta: "EncodeKey k 0 0 = k @ [0]"
  by (simp add: EncodeKey_def)

lemma EncodeKey_version:
  "w \<noteq> 0 \<or> l \<noteq> 0 \<Longrightarrow>
     EncodeKey k w l = k @ (0 # EncodeTimestamp w l) @ [of_nat (length (0 # EncodeTimestamp w l))]"
  by (auto simp add: EncodeKey_def Let_def)

lemma length_EncodeTimestamp: "length (EncodeTimestamp w l) = (if l = 0 then 8 else 12)"
  by (simp add: EncodeTimestamp_def)

lemma SplitKey_EncodeKey:
  "SplitKey (EncodeKey k w l) = Some (k, if w \<noteq> 0 \<or> l \<noteq> 0 then 0 # EncodeTimestamp w l else [])"
proof (cases "w \<noteq> 0 \<or> l \<noteq> 0")
  case False
  then show ?thesis using SplitKey_append[of 0 "[]" k]
    by (simp add: EncodeKey_meta char_to_size_t_def)
next
  case True
  have "char_to_size_t (of_nat (length (0 # EncodeTimestamp w l))) = length (0 # EncodeTimestamp w l)"
    by (simp add: length_EncodeTimestamp char_to_size_t_def)
  then show ?thesis using True SplitKey_append[of _ "0 # EncodeTimestamp w l" k]
    by (simp only: EncodeKey_version[OF True] if_True)
qed

lemma DecodeKey_EncodeKey:
  "DecodeKey (EncodeKey k w l) w0 l0 =
     Some (k, if w \<noteq> 0 \<or> l \<noteq> 0 then w else w0, if w \<noteq> 0 \<or> l \<noteq> 0 then l else l0)"
  by (simp add: DecodeKey_def SplitKey_EncodeKey DecodeTimestamp_Encode)

subsection \<open>Byte order and numeric order\<close>

lemma slice_compare_refl [simp]: "slice_compare a a = 0"
  by (induction a) auto

lemma slice_compare_eq_0: "slice_compare a b = 0 \<longleftrightarrow> a = b"
  by (induction a b rule: slice_compare.induct) auto

lemma slice_compare_prefix [simp]: "slice_compare (p @ x) (p @ y) = slice_compare x y"
  by (induction p) auto

lemma slice_compare_append:
  "length x1 = length y1 \<Longrightarrow>
     slice_compare (x1 @ x2) (y1 @ y2) =
       (if slice_compare x1 y1 \<noteq> 0 then slice_compare x1 y1 else slice_compare x2 y2)"
  by (induction x1 y1 rule: slice_compare.induct) auto

lemma slice_compare_lexord:
  "slice_compare a b < 0 \<longleftrightarrow> (a, b) \<in> lexord {(x, y). x < y}"
  by (induction a b rule: slice_compare.induct) auto

lemma slice_compare_Nil_right: "slice_compare x [] < 0 \<longleftrightarrow> False"
  by (cases x) auto

lemma slice_compare_Nil_left: "slice_compare [] x < 0 \<longleftrightarrow> x \<noteq> []"
  by (cases x) auto

lemma benat_snoc: "benat (bs @ [b]) = benat bs * 256 + unat b"
  by (simp add: benat_def)

lemma benat_lt: "benat bs < 256 ^ length bs"
proof (induction bs rule: rev_induct)
  case Nil
  then show ?case by (simp add: benat_def)
next
  case (snoc b bs)
  have "unat b < 256" using unsigned_less[of b] by simp
  with snoc show ?case by (simp add: benat_snoc)
qed

lemma benat_Cons: "benat (b # bs) = unat b * 256 ^ length bs + benat bs"
proof (induction bs rule: rev_induct)
  case Nil
  then show ?case by (simp add: benat_def)
next
  case (snoc x xs)
  have "benat (b # xs @ [x]) = benat ((b # xs) @ [x])" by simp
  also have "\<dots> = benat (b # xs) * 256 + unat x" by (rule benat_snoc)
  finally show ?case using snoc by (simp add: benat_snoc algebra_simps)
qed

lemma slice_compare_benat:
  "length xs = length ys \<Longrightarrow> slice_compare xs ys < 0 \<longleftrightarrow> benat xs < benat ys"
proof (induction xs ys rule: slice_compare.induct)
  case (4 x xs y ys)
  then have len: "length xs = length ys" by simp
  let ?p = "256 ^ length ys :: nat"
  have bx: "benat xs < ?p" using benat_lt[of xs] len by simp
  have by': "benat ys < ?p" using benat_lt[of ys] by simp
  show ?case
  proof (cases "x < y")
    case True
    then have "unat x + 1 \<le> unat y" by (simp add: word_less_nat_alt)
    then have "(unat x + 1) * ?p \<le> unat y * ?p" by (rule mult_le_mono1)
    then have "unat x * ?p + benat xs < unat y * ?p + benat ys" using bx by (simp add: algebra_simps)
    with True len show ?thesis by (simp add: benat_Cons)
  next
    case False
    show ?thesis
    proof (cases "y < x")
      case True
      then have "unat y + 1 \<le> unat x" by (simp add: word_less_nat_alt)
      then have "(unat y + 1) * ?p \<le> unat x * ?p" by (rule mult_le_mono1)
      then have "\<not> unat x * ?p + benat xs < unat y * ?p + benat ys" using by' by (simp add: algebra_simps)
      with True False len show ?thesis by (simp add: benat_Cons)
    next
      case F2: False
      with False have "x = y" by simp
      with 4 len show ?thesis by (simp add: benat_Cons)
    qed
  qed
qed simp_all

lemma unat_push_or64:
  fixes x :: "64 word" and b :: byte
  assumes "unat x < 2 ^ 56"
  shows "unat (push_bit 8 x OR ucast b) = unat x * 256 + unat b"
proof -
  have d: "push_bit 8 x + ucast b = push_bit 8 x OR (ucast b :: 64 word)"
    by (rule disjunctive_add) (auto simp add: bit_simps dest: bit_imp_le_length)
  have ub: "unat b < 256" using unsigned_less[of b] by simp
  have "unat (push_bit 8 x) = (unat x * 256) mod 2 ^ LENGTH(64)"
    by (simp add: push_bit_eq_mult unat_word_ariths)
  then have u1: "unat (push_bit 8 x) = unat x * 256"
    using assms by simp
  have u2: "unat (ucast b :: 64 word) = unat b"
    using ub by (simp add: unsigned_ucast_eq take_bit_nat_eq_self_iff)
  have "unat (push_bit 8 x + ucast b :: 64 word) = (unat x * 256 + unat b) mod 2 ^ 64"
    by (simp add: unat_word_ariths u1 u2)
  also have "\<dots> = unat x * 256 + unat b" using assms ub by simp
  finally show ?thesis by (simp add: d)
qed

lemma unat_push_or32:
  fixes x :: "32 word" and b :: byte
  assumes "unat x < 2 ^ 24"
  shows "unat (push_bit 8 x OR ucast b) = unat x * 256 + unat b"
proof -
  have d: "push_bit 8 x + ucast b = push_bit 8 x OR (ucast b :: 32 word)"
    by (rule disjunctive_add) (auto simp add: bit_simps dest: bit_imp_le_length)
  have ub: "unat b < 256" using unsigned_less[of b] by simp
  have "unat (push_bit 8 x) = (unat x * 256) mod 2 ^ LENGTH(32)"
    by (simp add: push_bit_eq_mult unat_word_ariths)
  then have u1: "unat (push_bit 8 x) = unat x * 256"
    using assms by simp
  have u2: "unat (ucast b :: 32 word) = unat b"
    using ub by (simp add: unsigned_ucast_eq take_bit_nat_eq_self_iff)
  have "unat (push_bit 8 x + ucast b :: 32 word) = (unat x * 256 + unat b) mod 2 ^ 32"
    by (simp add: unat_word_ariths u1 u2)
  also have "\<dots> = unat x * 256 + unat b" using assms ub by simp
  finally show ?thesis by (simp add: d)
qed

lemma be64_snoc: "be64 (bs @ [b]) = push_bit 8 (be64 bs) OR ucast b"
  by (simp add: be64_def)

lemma be32_snoc: "be32 (bs @ [b]) = push_bit 8 (be32 bs) OR ucast b"
  by (simp add: be32_def)

lemma unat_be64: "length bs \<le> 8 \<Longrightarrow> unat (be64 bs) = benat bs"
proof (induction bs rule: rev_induct)
  case Nil
  then show ?case by (simp add: be64_def benat_def)
next
  case (snoc b bs)
  then have ih: "unat (be64 bs) = benat bs" and l: "length bs \<le> 7" by simp_all
  have "benat bs < 256 ^ length bs" by (rule benat_lt)
  also have "\<dots> \<le> (256::nat) ^ 7" using l by (intro power_increasing) simp_all
  finally have "unat (be64 bs) < 2 ^ 56" using ih by simp
  then show ?case by (simp add: be64_snoc benat_snoc unat_push_or64 ih)
qed

lemma unat_be32: "length bs \<le> 4 \<Longrightarrow> unat (be32 bs) = benat bs"
proof (induction bs rule: rev_induct)
  case Nil
  then show ?case by (simp add: be32_def benat_def)
next
  case (snoc b bs)
  then have ih: "unat (be32 bs) = benat bs" and l: "length bs \<le> 3" by simp_all
  have "benat bs < 256 ^ length bs" by (rule benat_lt)
  also have "\<dots> \<le> (256::nat) ^ 3" using l by (intro power_increasing) simp_all
  finally have "unat (be32 bs) < 2 ^ 24" using ih by simp
  then show ?case by (simp add: be32_snoc benat_snoc unat_push_or32 ih)
qed

lemma benat_EncodeUint64: "benat (EncodeUint64 w) = unat w"
  using unat_be64[of "EncodeUint64 w"] by (simp add: be64_enc)

lemma benat_EncodeUint32: "benat (EncodeUint32 w) = unat w"
  using unat_be32[of "EncodeUint32 w"] by (simp add: be32_enc)

lemma slice_compare_EncodeUint64:
  "slice_compare (EncodeUint64 x) (EncodeUint64 y) < 0 \<longleftrightarrow> x < y"
  by (simp add: slice_compare_benat benat_EncodeUint64 word_less_nat_alt)

lemma slice_compare_EncodeUint32:
  "slice_compare (EncodeUint32 x) (EncodeUint32 y) < 0 \<longleftrightarrow> x < y"
  by (simp add: slice_compare_benat benat_EncodeUint32 word_less_nat_alt)

lemma EncodeUint64_inj: "EncodeUint64 x = EncodeUint64 y \<longleftrightarrow> x = y"
  by (metis be64_enc)

lemma slice_compare_EncodeTimestamp:
  "slice_compare (EncodeTimestamp w2 l2) (EncodeTimestamp w1 l1) < 0 \<longleftrightarrow>
     w2 < w1 \<or> (w2 = w1 \<and> l2 < l1)"
proof -
  let ?s1 = "if l1 \<noteq> 0 then EncodeUint32 l1 else []"
  let ?s2 = "if l2 \<noteq> 0 then EncodeUint32 l2 else []"
  have s: "slice_compare ?s2 ?s1 < 0 \<longleftrightarrow> l2 < l1"
  proof (cases "l1 = 0")
    case True
    then show ?thesis by (simp add: slice_compare_Nil_right)
  next
    case False
    then have "0 < l1" by (simp add: word_neq_0_conv)
    with False show ?thesis
      by (cases "l2 = 0") (simp_all add: slice_compare_Nil_left slice_compare_EncodeUint32)
  qed
  have "slice_compare (EncodeTimestamp w2 l2) (EncodeTimestamp w1 l1) =
      (if slice_compare (EncodeUint64 w2) (EncodeUint64 w1) \<noteq> 0
       then slice_compare (EncodeUint64 w2) (EncodeUint64 w1) else slice_compare ?s2 ?s1)"
    unfolding EncodeTimestamp_def by (rule slice_compare_append) simp
  then show ?thesis
    using s slice_compare_EncodeUint64[of w2 w1] slice_compare_eq_0[of "EncodeUint64 w2" "EncodeUint64 w1"]
    by (auto simp add: EncodeUint64_inj)
qed

lemma Compare_EncodeKey:
  "Compare (EncodeKey a w1 l1) (EncodeKey b w2 l2) =
     (let c = slice_compare a b in
      if c \<noteq> 0 then c
      else if w1 = 0 \<and> l1 = 0 then (if w2 = 0 \<and> l2 = 0 then 0 else - 1)
      else if w2 = 0 \<and> l2 = 0 then 1
      else slice_compare (EncodeTimestamp w2 l2) (EncodeTimestamp w1 l1))"
  by (simp add: Compare_def SplitKey_EncodeKey Let_def)

lemma uint_eq_sint_nonneg:
  fixes x :: "'a::len word"
  assumes "0 \<le>s x"
  shows "uint x = sint x"
proof -
  have "0 \<le> sint x" using assms by (simp add: word_sle_eq)
  moreover have "sint x < 2 ^ LENGTH('a)"
  proof -
    have "sint x < 2 ^ (LENGTH('a) - 1)" by (rule sint_lt)
    also have "(2::int) ^ (LENGTH('a) - 1) \<le> 2 ^ LENGTH('a)" by (rule power_increasing) simp_all
    finally show ?thesis .
  qed
  ultimately have "take_bit LENGTH('a) (sint x) = sint x" by (simp add: take_bit_int_eq_self)
  then show ?thesis by (simp add: uint_sint)
qed

lemma sless_nonneg:
  fixes x y :: "'a::len word"
  assumes "0 \<le>s x" "0 \<le>s y"
  shows "x <s y \<longleftrightarrow> x < y"
  using uint_eq_sint_nonneg[OF assms(1)] uint_eq_sint_nonneg[OF assms(2)]
  by (simp add: word_sless_alt word_less_alt)

lemma Compare_versions_nonneg:
  assumes "0 \<le>s w1" "0 \<le>s l1" "0 \<le>s w2" "0 \<le>s l2"
    and "w1 \<noteq> 0 \<or> l1 \<noteq> 0" "w2 \<noteq> 0 \<or> l2 \<noteq> 0"
  shows "Compare (EncodeKey a w1 l1) (EncodeKey a w2 l2) < 0 \<longleftrightarrow>
     ts_greater \<lparr>wall_time = w1, logical = l1\<rparr> \<lparr>wall_time = w2, logical = l2\<rparr>"
  using assms(5,6) sless_nonneg[OF assms(3) assms(1)] sless_nonneg[OF assms(4) assms(2)]
  by (auto simp add: Compare_EncodeKey slice_compare_EncodeTimestamp ts_greater_def ts_less_def)

lemma Compare_meta_first:
  "w \<noteq> 0 \<or> l \<noteq> 0 \<Longrightarrow> Compare (EncodeKey a 0 0) (EncodeKey a w l) < 0"
  by (auto simp add: Compare_EncodeKey)

lemma Compare_user_key:
  "(a, b) \<in> lexord {(x, y). x < y} \<Longrightarrow> Compare (EncodeKey a w1 l1) (EncodeKey b w2 l2) < 0"
proof -
  assume "(a, b) \<in> lexord {(x, y). x < y}"
  then have "slice_compare a b < 0" by (simp only: slice_compare_lexord)
  then show ?thesis by (simp add: Compare_EncodeKey Let_def)
qed


subsection \<open>The claims about the codec and the comparator\<close>

text \<open>
  Claim C1. Decoding an encoded key, with the two timestamp outputs zeroed as
  every call site has them, succeeds and gives back the user key and the
  timestamp, for every user key and every timestamp (in particular for
  \<open>wall_time \<ge> 0\<close> and \<open>logical \<ge> 0\<close>). For a non-zero timestamp the previous
  contents of the outputs do not matter; for the zero timestamp \<^verbatim>\<open>DecodeKey\<close>
  leaves them as they are. \<^verbatim>\<open>DecodeKey\<close> returns false for the empty buffer,
  for a buffer whose last byte is not smaller than the buffer's size and for
  one whose last byte is none of 0, 9 and 13 (the timestamp region then does
  not parse to exactly the declared bytes).
\<close>

theorem DecodeKey_EncodeKey_roundtrip:
  "DecodeKey (EncodeKey k w l) 0 0 = Some (k, w, l)
   \<and> (w \<noteq> 0 \<or> l \<noteq> 0 \<longrightarrow> DecodeKey (EncodeKey k w l) w0 l0 = Some (k, w, l))
   \<and> DecodeKey (EncodeKey k 0 0) w0 l0 = Some (k, w0, l0)
   \<and> (buf = [] \<or> length buf \<le> unat (last buf) \<or> unat (last buf) \<notin> {0, 9, 13}
        \<longrightarrow> DecodeKey buf w0 l0 = None)"
proof -
  have "DecodeKey buf w0 l0 = None"
    if "buf = [] \<or> length buf \<le> unat (last buf) \<or> unat (last buf) \<notin> {0, 9, 13}"
  proof -
    from that have "\<not> (buf \<noteq> [] \<and> unat (last buf) < length buf \<and> unat (last buf) \<in> {0, 9, 13})"
      by auto
    then show ?thesis using DecodeKey_Some_iff[of buf w0 l0] by blast
  qed
  then show ?thesis by (simp add: DecodeKey_EncodeKey)
qed

theorem DecodeKey_EncodeKey_roundtrip_witness:
  "DecodeKey (EncodeKey [107] 5 3) 0 0 = Some ([107], 5, 3)
   \<and> DecodeKey (EncodeKey [107] 5 3) 9 9 = Some ([107], 5, 3)
   \<and> DecodeKey (EncodeKey [107] 0 0) 9 9 = Some ([107], 9, 9)
   \<and> DecodeKey [107, 0, 4] 9 9 = None"
  using DecodeKey_EncodeKey_roundtrip[of "[107]" 5 3 9 9 "[107, 0, 4]"] by simp

text \<open>
  C2 (as amended). For one user key the encoding without timestamp compares
  before every encoding with a timestamp; for one user key and two non-zero
  timestamps with non-negative \<open>wall_time\<close> and \<open>logical\<close>, the first encoding
  compares before the second if and only if the first timestamp is the greater
  one (newer first); and if user key \<open>a\<close> is lexicographically smaller than
  \<open>b\<close>, every encoding of \<open>a\<close> compares before every encoding of \<open>b\<close>.
\<close>

theorem Compare_order:
  "(w \<noteq> 0 \<or> l \<noteq> 0 \<longrightarrow> Compare (EncodeKey a 0 0) (EncodeKey a w l) < 0)
   \<and> (0 \<le>s w1 \<and> 0 \<le>s l1 \<and> 0 \<le>s w2 \<and> 0 \<le>s l2 \<and> (w1 \<noteq> 0 \<or> l1 \<noteq> 0) \<and> (w2 \<noteq> 0 \<or> l2 \<noteq> 0)
        \<longrightarrow> (Compare (EncodeKey a w1 l1) (EncodeKey a w2 l2) < 0 \<longleftrightarrow>
             ts_greater \<lparr>wall_time = w1, logical = l1\<rparr> \<lparr>wall_time = w2, logical = l2\<rparr>))
   \<and> ((a, b) \<in> lexord {(x, y). x < y}
        \<longrightarrow> Compare (EncodeKey a w1 l1) (EncodeKey b w2 l2) < 0)"
  using Compare_meta_first[of w l a] Compare_versions_nonneg[of w1 l1 w2 l2 a]
    Compare_user_key[of a b w1 l1 w2 l2]
  by blast

theorem Compare_order_witness:
  "Compare (EncodeKey [97] 0 0) (EncodeKey [97] 0 1) < 0
   \<and> (Compare (EncodeKey [97] 7 2) (EncodeKey [97] 7 1) < 0 \<longleftrightarrow>
        ts_greater \<lparr>wall_time = 7, logical = 2\<rparr> \<lparr>wall_time = 7, logical = 1\<rparr>)
   \<and> ts_greater \<lparr>wall_time = 7, logical = 2\<rparr> \<lparr>wall_time = 7, logical = 1\<rparr>
   \<and> Compare (EncodeKey [97] 7 2) (EncodeKey [97, 0] 7 1) < 0"
  using Compare_order[of 0 1 "[97]" 7 2 7 1 "[97, 0]"]
  by (simp add: word_sle_eq word_sless_alt ts_greater_def ts_less_def)

text \<open>
  The second part of the claim as stated, for any two timestamps, fails in two
  ways: the zero timestamp sorts first although it is the smallest, and a
  negative \<open>wall_time\<close> is encoded as a large unsigned number.
\<close>

theorem Compare_order_counterexample:
  "Compare (EncodeKey [97] 0 0) (EncodeKey [97] 1 0) < 0
   \<and> \<not> ts_greater \<lparr>wall_time = 0, logical = 0\<rparr> \<lparr>wall_time = 1, logical = 0\<rparr>
   \<and> Compare (EncodeKey [97] (- 1) 0) (EncodeKey [97] 1 0) < 0
   \<and> \<not> ts_greater \<lparr>wall_time = - 1, logical = 0\<rparr> \<lparr>wall_time = 1, logical = 0\<rparr>"
  by (simp add: Compare_EncodeKey slice_compare_EncodeTimestamp ts_greater_def ts_less_def
      word_sless_alt word_less_alt uint_word_ariths)

section \<open>Properties of the statistics helpers\<close>

lemma tdiv_abs_le: "\<bar>(a::int) sdiv 1000000000\<bar> \<le> \<bar>a\<bar> div 1000000000"
  by (simp add: signed_divide_int_def abs_mult abs_sgn_eq)

lemma sint_seconds_bound: "\<bar>sint (x :: 64 word) sdiv 1000000000\<bar> \<le> 9223372037"
proof -
  have "- (2 ^ 63) \<le> sint x" "sint x < 2 ^ 63"
    using sint_ge[of x] sint_lt[of x] by simp_all
  then have "\<bar>sint x\<bar> \<le> 2 ^ 63" by simp
  then have "\<bar>sint x\<bar> div 1000000000 \<le> 2 ^ 63 div (1000000000::int)"
    by (rule zdiv_mono1) simp
  then show ?thesis using tdiv_abs_le[of "sint x"] by simp
qed

lemma sint_word_of_int_64:
  "- (2 ^ 63) \<le> d \<Longrightarrow> d < 2 ^ 63 \<Longrightarrow> sint (word_of_int d :: 64 word) = d"
  by (simp add: sint_sbintrunc' signed_take_bit_int_eq_self)

text \<open>
  C9. The age factor is \<open>toNS / 1e9 - fromNS / 1e9\<close> with each operand divided
  on its own by the integer 1000000000, truncating towards zero; no overflow
  can occur, so the equation holds on the integers. It is not the seconds of
  the difference: from 999999999 ns to 1000000000 ns the factor is 1, while
  the difference of one nanosecond has zero whole seconds.
\<close>

theorem age_factor_integer_seconds:
  "sint (age_factor fromNS toNS) = sint toNS sdiv 1000000000 - sint fromNS sdiv 1000000000
   \<and> age_factor 999999999 1000000000 = 1
   \<and> (sint (1000000000 :: 64 word) - sint (999999999 :: 64 word)) sdiv 1000000000 = 0"
proof -
  let ?d = "sint toNS sdiv 1000000000 - sint fromNS sdiv 1000000000"
  have "\<bar>?d\<bar> \<le> 2 * 9223372037"
    using sint_seconds_bound[of toNS] sint_seconds_bound[of fromNS] by linarith
  then have r: "- (2 ^ 63) \<le> ?d" "?d < 2 ^ 63" by simp_all
  have "age_factor fromNS toNS = word_of_int ?d"
    by (simp add: age_factor_def kNanosecondPerSecond_def)
  then have "sint (age_factor fromNS toNS) = ?d"
    using sint_word_of_int_64[OF r] by simp
  moreover have "age_factor 999999999 1000000000 = 1"
    by (simp add: age_factor_def kNanosecondPerSecond_def signed_divide_int_def)
  moreover have "(sint (1000000000 :: 64 word) - sint (999999999 :: 64 word)) sdiv 1000000000 = 0"
    by (simp add: signed_divide_int_def)
  ultimately show ?thesis by simp
qed

section \<open>Properties of the time series merge\<close>

lemma offset_eq_ko: "offset s = n \<longleftrightarrow> ko s = sint n"
  by (auto simp add: ko_def signed_word_eqI)

lemma dropWhile_key_gt:
  "sorted (map f xs) \<Longrightarrow> \<forall>x\<in>set xs. k \<le> f x \<Longrightarrow>
     \<forall>x\<in>set (dropWhile (\<lambda>s. f s = (k::int)) xs). k < f x"
proof (induction xs)
  case Nil
  then show ?case by simp
next
  case (Cons a as)
  show ?case
  proof (cases "f a = k")
    case True
    with Cons show ?thesis by simp
  next
    case False
    with Cons.prems have "k < f a" by auto
    moreover from Cons.prems have "\<forall>x\<in>set as. f a \<le> f x" by simp
    ultimately show ?thesis using False by auto
  qed
qed

lemma filter_eq_takeWhile_sorted:
  "sorted (map f xs) \<Longrightarrow> \<forall>x\<in>set xs. k \<le> f x \<Longrightarrow>
     filter (\<lambda>s. f s = (k::int)) xs = takeWhile (\<lambda>s. f s = k) xs"
proof (induction xs)
  case Nil
  then show ?case by simp
next
  case (Cons a as)
  show ?case
  proof (cases "f a = k")
    case True
    with Cons show ?thesis by simp
  next
    case False
    with Cons.prems have "k < f a" by auto
    moreover from Cons.prems have "\<forall>x\<in>set as. f a \<le> f x" by simp
    ultimately have "\<forall>x\<in>set (a # as). f x \<noteq> k" by auto
    then have "filter (\<lambda>s. f s = k) (a # as) = []" by (simp only: filter_False) 
    with False show ?thesis by simp
  qed
qed

lemma filter_dropWhile_other:
  "j \<noteq> k \<Longrightarrow> filter (\<lambda>s. f s = j) (dropWhile (\<lambda>s. f s = k) xs) = filter (\<lambda>s. f s = j) xs"
  by (induction xs) auto

lemma set_consolidate_samples: "set (consolidate_samples ys) \<subseteq> set ys"
proof (induction ys rule: consolidate_samples.induct)
  case 1
  then show ?case by simp
next
  case (2 x xs)
  have "last (x # takeWhile (\<lambda>s. offset s = offset x) xs) \<in> set (x # takeWhile (\<lambda>s. offset s = offset x) xs)"
    by (rule last_in_set) simp
  then have "last (x # takeWhile (\<lambda>s. offset s = offset x) xs) \<in> set (x # xs)"
    using set_takeWhileD by fastforce
  moreover have "set (dropWhile (\<lambda>s. offset s = offset x) xs) \<subseteq> set xs"
    by (rule set_dropWhileD[THEN subsetI])
  ultimately show ?case using 2 by auto
qed

lemma sorted_ko_Cons:
  "sorted (map ko (x # xs)) \<Longrightarrow> \<forall>y\<in>set xs. ko x \<le> ko y"
  by simp

lemma sorted_ko_dropWhile: "sorted (map ko xs) \<Longrightarrow> sorted (map ko (dropWhile P xs))"
  by (simp add: sorted_map)

lemma ko_last_run: "ko (last (x # takeWhile (\<lambda>s. ko s = ko x) xs)) = ko x"
proof -
  have "last (x # takeWhile (\<lambda>s. ko s = ko x) xs) \<in> set (x # takeWhile (\<lambda>s. ko s = ko x) xs)"
    by (rule last_in_set) simp
  then show ?thesis using set_takeWhileD by fastforce
qed

lemma consolidate_samples_Cons_ko:
  "consolidate_samples (x # xs) =
     last (x # takeWhile (\<lambda>s. ko s = ko x) xs)
       # consolidate_samples (dropWhile (\<lambda>s. ko s = ko x) xs)"
  by (simp add: offset_eq_ko[of _ "offset x"] ko_def)

lemma consolidate_sorted:
  "sorted (map ko ys) \<Longrightarrow> sorted_wrt (\<lambda>a b. ko a < ko b) (consolidate_samples ys)"
proof (induction ys rule: consolidate_samples.induct)
  case 1
  then show ?case by simp
next
  case (2 x xs)
  let ?P = "\<lambda>s. ko s = ko x"
  have P: "(\<lambda>s. offset s = offset x) = ?P" by (simp add: offset_eq_ko[of _ "offset x"] ko_def)
  have ge: "\<forall>y\<in>set xs. ko x \<le> ko y" using 2(2) by simp
  have srt: "sorted (map ko xs)" using 2(2) by simp
  have gt: "\<forall>y\<in>set (dropWhile ?P xs). ko x < ko y"
    using dropWhile_key_gt[OF srt ge] .
  have "sorted_wrt (\<lambda>a b. ko a < ko b) (consolidate_samples (dropWhile ?P xs))"
    using 2(1)[unfolded P] sorted_ko_dropWhile[OF srt] by simp
  moreover have "\<forall>y\<in>set (consolidate_samples (dropWhile ?P xs)). ko x < ko y"
    using gt set_consolidate_samples[of "dropWhile ?P xs"] by blast
  ultimately show ?case
    by (simp only: consolidate_samples_Cons_ko sorted_wrt.simps ko_last_run)
qed

lemma consolidate_filter:
  "sorted (map ko ys) \<Longrightarrow>
     filter (\<lambda>s. ko s = k) (consolidate_samples ys) = last_list (filter (\<lambda>s. ko s = k) ys)"
proof (induction ys rule: consolidate_samples.induct)
  case 1
  then show ?case by (simp add: last_list_def)
next
  case (2 x xs)
  let ?P = "\<lambda>s. ko s = ko x"
  let ?rest = "dropWhile ?P xs"
  have P: "(\<lambda>s. offset s = offset x) = ?P" by (simp add: offset_eq_ko[of _ "offset x"] ko_def)
  have ge: "\<forall>y\<in>set xs. ko x \<le> ko y" using 2(2) by simp
  have srt: "sorted (map ko xs)" using 2(2) by simp
  have gt: "\<forall>y\<in>set ?rest. ko x < ko y"
    using dropWhile_key_gt[OF srt ge] .
  have ih: "filter (\<lambda>s. ko s = k) (consolidate_samples ?rest) = last_list (filter (\<lambda>s. ko s = k) ?rest)"
    using 2(1)[unfolded P] sorted_ko_dropWhile[OF srt] by simp
  show ?case
  proof (cases "k = ko x")
    case True
    have "\<forall>y\<in>set (consolidate_samples ?rest). ko y \<noteq> k"
      using gt set_consolidate_samples[of ?rest] True by fastforce
    then have e: "filter (\<lambda>s. ko s = k) (consolidate_samples ?rest) = []"
      by (simp only: filter_False)
    have "filter (\<lambda>s. ko s = k) (x # xs) = x # takeWhile ?P xs"
      using filter_eq_takeWhile_sorted[OF srt ge] True by simp
    then show ?thesis using e True
      by (simp only: consolidate_samples_Cons_ko filter.simps ko_last_run last_list_def) simp
  next
    case False
    have "filter (\<lambda>s. ko s = k) ?rest = filter (\<lambda>s. ko s = k) xs"
      using False by (intro filter_dropWhile_other) simp
    then show ?thesis using ih False
      by (simp only: consolidate_samples_Cons_ko filter.simps ko_last_run) simp
  qed
qed

declare merge_samples.simps [simp del]

lemma merge_samples_Nil [simp]: "merge_samples d [] [] = []"
  by (simp add: merge_samples.simps)

lemma merge_samples_step:
  "\<not> (l = [] \<and> r = []) \<Longrightarrow>
     merge_samples d l r =
       last_or (last_or d (takeWhile (\<lambda>s. ko s = sint (next_offset l r)) l))
               (takeWhile (\<lambda>s. ko s = sint (next_offset l r)) r)
       # merge_samples d (dropWhile (\<lambda>s. ko s = sint (next_offset l r)) l)
                         (dropWhile (\<lambda>s. ko s = sint (next_offset l r)) r)"
  by (subst merge_samples.simps) (simp add: Let_def offset_eq_ko[of _ "next_offset l r"])

lemma next_offset_hd:
  "\<not> (l = [] \<and> r = []) \<Longrightarrow>
     (l \<noteq> [] \<and> ko (hd l) = sint (next_offset l r)) \<or> (r \<noteq> [] \<and> ko (hd r) = sint (next_offset l r))"
  by (auto simp add: next_offset_def ko_def)

lemma next_offset_le:
  assumes "sorted (map ko l)" "sorted (map ko r)" "\<not> (l = [] \<and> r = [])"
  shows "\<forall>y\<in>set l \<union> set r. sint (next_offset l r) \<le> ko y"
proof -
  have hl: "\<forall>y\<in>set l. ko (hd l) \<le> ko y" using assms(1) by (cases l) auto
  have hr: "\<forall>y\<in>set r. ko (hd r) \<le> ko y" using assms(2) by (cases r) auto
  show ?thesis
  proof (cases "l = []")
    case True
    with hr show ?thesis by (simp add: next_offset_def ko_def)
  next
    case l: False
    show ?thesis
    proof (cases "r = []")
      case True
      with l hl show ?thesis by (simp add: next_offset_def ko_def)
    next
      case False
      with l hl hr show ?thesis
        by (fastforce simp add: next_offset_def ko_def word_sle_eq)
    qed
  qed
qed

lemma takeWhile_hd_ne: "xs \<noteq> [] \<Longrightarrow> P (hd xs) \<Longrightarrow> takeWhile P xs \<noteq> []"
  by (cases xs) auto

lemma last_or_runs:
  assumes "lrun @ rrun \<noteq> []"
  shows "last_or (last_or d lrun) rrun = last (lrun @ rrun)"
  using assms by (auto simp add: last_or_def)

lemma runs_ne:
  assumes "\<not> (l = [] \<and> r = [])"
  shows "takeWhile (\<lambda>s. ko s = sint (next_offset l r)) l @ takeWhile (\<lambda>s. ko s = sint (next_offset l r)) r \<noteq> []"
  using next_offset_hd[OF assms] takeWhile_hd_ne[of l "\<lambda>s. ko s = sint (next_offset l r)"]
    takeWhile_hd_ne[of r "\<lambda>s. ko s = sint (next_offset l r)"]
  by auto

lemma ko_last_runs:
  assumes "takeWhile (\<lambda>s. ko s = k) l @ takeWhile (\<lambda>s. ko s = k) r \<noteq> []"
  shows "ko (last (takeWhile (\<lambda>s. ko s = k) l @ takeWhile (\<lambda>s. ko s = k) r)) = k"
proof -
  have "last (takeWhile (\<lambda>s. ko s = k) l @ takeWhile (\<lambda>s. ko s = k) r)
      \<in> set (takeWhile (\<lambda>s. ko s = k) l @ takeWhile (\<lambda>s. ko s = k) r)"
    using assms by (rule last_in_set)
  then show ?thesis using set_takeWhileD by fastforce
qed

lemma merge_samples_step':
  assumes "\<not> (l = [] \<and> r = [])"
  shows "merge_samples d l r =
       last (takeWhile (\<lambda>s. ko s = sint (next_offset l r)) l @ takeWhile (\<lambda>s. ko s = sint (next_offset l r)) r)
       # merge_samples d (dropWhile (\<lambda>s. ko s = sint (next_offset l r)) l)
                         (dropWhile (\<lambda>s. ko s = sint (next_offset l r)) r)"
  using merge_samples_step[OF assms, of d] last_or_runs[OF runs_ne[OF assms], of d] by simp

lemma set_merge_samples: "set (merge_samples d l r) \<subseteq> set l \<union> set r"
proof (induction d l r rule: merge_samples.induct)
  case (1 d l r)
  show ?case
  proof (cases "l = [] \<and> r = []")
    case True
    then show ?thesis by simp
  next
    case False
    let ?P = "\<lambda>s. ko s = sint (next_offset l r)"
    have P: "(\<lambda>s. offset s = next_offset l r) = ?P"
      by (simp add: offset_eq_ko[of _ "next_offset l r"])
    have ih: "set (merge_samples d (dropWhile ?P l) (dropWhile ?P r)) \<subseteq> set (dropWhile ?P l) \<union> set (dropWhile ?P r)"
      using 1[OF False refl refl, unfolded P] .
    have "last (takeWhile ?P l @ takeWhile ?P r) \<in> set (takeWhile ?P l @ takeWhile ?P r)"
      using runs_ne[OF False] by (rule last_in_set)
    then have "last (takeWhile ?P l @ takeWhile ?P r) \<in> set l \<union> set r"
      using set_takeWhileD by fastforce
    moreover have "set (dropWhile ?P l) \<subseteq> set l" "set (dropWhile ?P r) \<subseteq> set r"
      by (auto dest: set_dropWhileD)
    ultimately show ?thesis using ih by (subst merge_samples_step'[OF False]) auto
  qed
qed

lemma merge_samples_sorted:
  "sorted (map ko l) \<Longrightarrow> sorted (map ko r) \<Longrightarrow>
     sorted_wrt (\<lambda>a b. ko a < ko b) (merge_samples d l r)"
proof (induction d l r rule: merge_samples.induct)
  case (1 d l r)
  show ?case
  proof (cases "l = [] \<and> r = []")
    case True
    then show ?thesis by simp
  next
    case False
    let ?k = "sint (next_offset l r)"
    let ?P = "\<lambda>s. ko s = ?k"
    have P: "(\<lambda>s. offset s = next_offset l r) = ?P"
      by (simp add: offset_eq_ko[of _ "next_offset l r"])
    note le = next_offset_le[OF 1(2) 1(3) False]
    have gl: "\<forall>y\<in>set (dropWhile ?P l). ?k < ko y"
      using dropWhile_key_gt[OF 1(2), of ?k] le by simp
    have gr: "\<forall>y\<in>set (dropWhile ?P r). ?k < ko y"
      using dropWhile_key_gt[OF 1(3), of ?k] le by simp
    have ih: "sorted_wrt (\<lambda>a b. ko a < ko b) (merge_samples d (dropWhile ?P l) (dropWhile ?P r))"
      using 1(1)[OF False refl refl, unfolded P] sorted_ko_dropWhile[OF 1(2)] sorted_ko_dropWhile[OF 1(3)]
      by simp
    have "\<forall>y\<in>set (merge_samples d (dropWhile ?P l) (dropWhile ?P r)). ?k < ko y"
      using gl gr set_merge_samples[of d "dropWhile ?P l" "dropWhile ?P r"] by blast
    then show ?thesis using ih ko_last_runs[OF runs_ne[OF False]]
      by (subst merge_samples_step'[OF False]) simp
  qed
qed

lemma merge_samples_filter:
  "sorted (map ko l) \<Longrightarrow> sorted (map ko r) \<Longrightarrow>
     filter (\<lambda>s. ko s = k) (merge_samples d l r) =
       last_list (filter (\<lambda>s. ko s = k) l @ filter (\<lambda>s. ko s = k) r)"
proof (induction d l r rule: merge_samples.induct)
  case (1 d l r)
  show ?case
  proof (cases "l = [] \<and> r = []")
    case True
    then show ?thesis by (simp add: last_list_def)
  next
    case False
    let ?k = "sint (next_offset l r)"
    let ?P = "\<lambda>s. ko s = ?k"
    let ?l' = "dropWhile ?P l" and ?r' = "dropWhile ?P r"
    have P: "(\<lambda>s. offset s = next_offset l r) = ?P"
      by (simp add: offset_eq_ko[of _ "next_offset l r"])
    note le = next_offset_le[OF 1(2) 1(3) False]
    have gl: "\<forall>y\<in>set ?l'. ?k < ko y"
      using dropWhile_key_gt[OF 1(2), of ?k] le by simp
    have gr: "\<forall>y\<in>set ?r'. ?k < ko y"
      using dropWhile_key_gt[OF 1(3), of ?k] le by simp
    have ih: "filter (\<lambda>s. ko s = k) (merge_samples d ?l' ?r') =
        last_list (filter (\<lambda>s. ko s = k) ?l' @ filter (\<lambda>s. ko s = k) ?r')"
      using 1(1)[OF False refl refl, unfolded P] sorted_ko_dropWhile[OF 1(2)] sorted_ko_dropWhile[OF 1(3)]
      by simp
    note hd = ko_last_runs[OF runs_ne[OF False]]
    show ?thesis
    proof (cases "k = ?k")
      case True
      have "\<forall>y\<in>set (merge_samples d ?l' ?r'). ko y \<noteq> k"
        using gl gr set_merge_samples[of d ?l' ?r'] True by fastforce
      then have e: "filter (\<lambda>s. ko s = k) (merge_samples d ?l' ?r') = []"
        by (simp only: filter_False)
      have fl: "filter ?P l = takeWhile ?P l"
        using filter_eq_takeWhile_sorted[OF 1(2), of ?k] le by simp
      have fr: "filter ?P r = takeWhile ?P r"
        using filter_eq_takeWhile_sorted[OF 1(3), of ?k] le by simp
      show ?thesis using e hd True runs_ne[OF False]
        by (subst merge_samples_step'[OF False]) (simp add: fl fr last_list_def)
    next
      case F: False
      have "filter (\<lambda>s. ko s = k) ?l' = filter (\<lambda>s. ko s = k) l"
        "filter (\<lambda>s. ko s = k) ?r' = filter (\<lambda>s. ko s = k) r"
        using F by (simp_all add: filter_dropWhile_other)
      then show ?thesis using ih hd F
        by (subst merge_samples_step'[OF False]) simp
    qed
  qed
qed

lemma sorted_stable_sort: "sorted (map ko (stable_sort_samples xs))"
  unfolding stable_sort_samples_def ko_def[abs_def] by (rule sorted_sort_key)

lemma filter_stable_sort:
  "filter (\<lambda>s. ko s = k) (stable_sort_samples xs) = filter (\<lambda>s. ko s = k) xs"
  unfolding stable_sort_samples_def ko_def[abs_def] by (rule sort_key_stable)


lemma ko_pred: "(\<lambda>s. ko s = sint n) = (\<lambda>s. offset s = n)"
  by (simp add: offset_eq_ko[of _ n])

lemma ko_less: "(\<lambda>a b. ko a < ko b) = (\<lambda>a b. offset a <s offset b)"
  by (simp add: ko_def word_sless_alt)

lemma consolidate_stable_sort_props:
  "sorted_wrt (\<lambda>a b. offset a <s offset b) (consolidate_samples (stable_sort_samples xs))"
  "filter (\<lambda>s. offset s = n) (consolidate_samples (stable_sort_samples xs)) =
     last_list (filter (\<lambda>s. offset s = n) xs)"
  using consolidate_sorted[OF sorted_stable_sort, of xs]
    consolidate_filter[OF sorted_stable_sort, of "sint n" xs] filter_stable_sort[of "sint n" xs]
  by (simp_all only: ko_pred ko_less)

lemma merge_stable_sort_props:
  assumes "sorted (map (\<lambda>s. sint (offset s)) l)"
  shows "sorted_wrt (\<lambda>a b. offset a <s offset b) (merge_samples d l (stable_sort_samples r))"
    "filter (\<lambda>s. offset s = n) (merge_samples d l (stable_sort_samples r)) =
       last_list (filter (\<lambda>s. offset s = n) l @ filter (\<lambda>s. offset s = n) r)"
proof -
  have s: "sorted (map ko l)" using assms by (simp add: ko_def[abs_def])
  show "sorted_wrt (\<lambda>a b. offset a <s offset b) (merge_samples d l (stable_sort_samples r))"
    using merge_samples_sorted[OF s sorted_stable_sort, of d r] by (simp only: ko_less)
  show "filter (\<lambda>s. offset s = n) (merge_samples d l (stable_sort_samples r)) =
       last_list (filter (\<lambda>s. offset s = n) l @ filter (\<lambda>s. offset s = n) r)"
    using merge_samples_filter[OF s sorted_stable_sort, of "sint n" d r] filter_stable_sort[of "sint n" r]
    by (simp only: ko_pred)
qed

text \<open>
  C7 (as amended). For every parseable time-series value, consolidation
  produces the samples sorted strictly ascending by offset, and for every
  offset that occurs in the input exactly one sample, the last one of the
  input with that offset (the sort is stable). The full merge of two parseable
  values with equal start timestamps and sample durations does the same for
  the left samples followed by the right ones (so a right sample overrides a
  left one with the same offset), provided the left value's samples are
  already sorted by offset, as the code assumes.
\<close>

theorem timeseries_dedup:
  "(ParseProtoFromValue (parse_ts pb) val = Some ts \<longrightarrow>
      (\<exists>out. ConsolidateTimeSeriesValue pb val =
                Some (SerializeTimeSeriesToValue pb
                  \<lparr>start_timestamp_nanos = start_timestamp_nanos ts,
                   sample_duration_nanos = sample_duration_nanos ts, samples = out\<rparr>)
         \<and> sorted_wrt (\<lambda>a b. offset a <s offset b) out
         \<and> (\<forall>n. filter (\<lambda>s. offset s = n) out =
                (if filter (\<lambda>s. offset s = n) (samples ts) = [] then []
                 else [last (filter (\<lambda>s. offset s = n) (samples ts))]))))
   \<and> (ParseProtoFromValue (parse_ts pb) left = Some lts
        \<and> ParseProtoFromValue (parse_ts pb) right = Some rts
        \<and> start_timestamp_nanos lts = start_timestamp_nanos rts
        \<and> sample_duration_nanos lts = sample_duration_nanos rts
        \<and> sorted (map (\<lambda>s. sint (offset s)) (samples lts)) \<longrightarrow>
      (\<exists>out. MergeTimeSeriesValues pb left right True =
                Some (SerializeTimeSeriesToValue pb
                  \<lparr>start_timestamp_nanos = start_timestamp_nanos lts,
                   sample_duration_nanos = sample_duration_nanos lts, samples = out\<rparr>)
         \<and> sorted_wrt (\<lambda>a b. offset a <s offset b) out
         \<and> (\<forall>n. filter (\<lambda>s. offset s = n) out =
                (if filter (\<lambda>s. offset s = n) (samples lts) @ filter (\<lambda>s. offset s = n) (samples rts) = []
                 then []
                 else [last (filter (\<lambda>s. offset s = n) (samples lts)
                             @ filter (\<lambda>s. offset s = n) (samples rts))]))))"
proof (intro conjI impI)
  assume p: "ParseProtoFromValue (parse_ts pb) val = Some ts"
  let ?out = "consolidate_samples (stable_sort_samples (samples ts))"
  have "ConsolidateTimeSeriesValue pb val =
      Some (SerializeTimeSeriesToValue pb
        \<lparr>start_timestamp_nanos = start_timestamp_nanos ts,
         sample_duration_nanos = sample_duration_nanos ts, samples = ?out\<rparr>)"
    using p by (simp add: ConsolidateTimeSeriesValue_def)
  moreover have "sorted_wrt (\<lambda>a b. offset a <s offset b) ?out"
    by (rule consolidate_stable_sort_props)
  moreover have "\<forall>n. filter (\<lambda>s. offset s = n) ?out =
      (if filter (\<lambda>s. offset s = n) (samples ts) = [] then []
       else [last (filter (\<lambda>s. offset s = n) (samples ts))])"
    by (simp only: consolidate_stable_sort_props last_list_def) simp
  ultimately show "\<exists>out. ConsolidateTimeSeriesValue pb val =
                Some (SerializeTimeSeriesToValue pb
                  \<lparr>start_timestamp_nanos = start_timestamp_nanos ts,
                   sample_duration_nanos = sample_duration_nanos ts, samples = out\<rparr>)
         \<and> sorted_wrt (\<lambda>a b. offset a <s offset b) out
         \<and> (\<forall>n. filter (\<lambda>s. offset s = n) out =
                (if filter (\<lambda>s. offset s = n) (samples ts) = [] then []
                 else [last (filter (\<lambda>s. offset s = n) (samples ts))]))"
    by blast
next
  assume a: "ParseProtoFromValue (parse_ts pb) left = Some lts
        \<and> ParseProtoFromValue (parse_ts pb) right = Some rts
        \<and> start_timestamp_nanos lts = start_timestamp_nanos rts
        \<and> sample_duration_nanos lts = sample_duration_nanos rts
        \<and> sorted (map (\<lambda>s. sint (offset s)) (samples lts))"
  then have srt: "sorted (map (\<lambda>s. sint (offset s)) (samples lts))" by simp
  let ?out = "merge_samples (default_sample pb) (samples lts) (stable_sort_samples (samples rts))"
  have "MergeTimeSeriesValues pb left right True =
      Some (SerializeTimeSeriesToValue pb
        \<lparr>start_timestamp_nanos = start_timestamp_nanos lts,
         sample_duration_nanos = sample_duration_nanos lts, samples = ?out\<rparr>)"
    using a by (simp add: MergeTimeSeriesValues_def)
  moreover have "sorted_wrt (\<lambda>a b. offset a <s offset b) ?out"
    by (rule merge_stable_sort_props[OF srt])
  moreover have "\<forall>n. filter (\<lambda>s. offset s = n) ?out =
      (if filter (\<lambda>s. offset s = n) (samples lts) @ filter (\<lambda>s. offset s = n) (samples rts) = []
       then []
       else [last (filter (\<lambda>s. offset s = n) (samples lts)
                   @ filter (\<lambda>s. offset s = n) (samples rts))])"
    by (simp only: merge_stable_sort_props[OF srt] last_list_def) simp
  ultimately show "\<exists>out. MergeTimeSeriesValues pb left right True =
                Some (SerializeTimeSeriesToValue pb
                  \<lparr>start_timestamp_nanos = start_timestamp_nanos lts,
                   sample_duration_nanos = sample_duration_nanos lts, samples = out\<rparr>)
         \<and> sorted_wrt (\<lambda>a b. offset a <s offset b) out
         \<and> (\<forall>n. filter (\<lambda>s. offset s = n) out =
                (if filter (\<lambda>s. offset s = n) (samples lts) @ filter (\<lambda>s. offset s = n) (samples rts) = []
                 then []
                 else [last (filter (\<lambda>s. offset s = n) (samples lts)
                             @ filter (\<lambda>s. offset s = n) (samples rts))]))"
    by blast
qed



lemmas example_defs = example_pb_def ParseProtoFromValue_def ValueDataBytes_def kHeaderSize_def
  kTagPos_def kChecksumSize_def

lemma SerializeTimeSeriesToValue_bytes:
  "SerializeTimeSeriesToValue pb ts = [0, 0, 0, 0, of_int (TIMESERIES pb)] @ serialize_ts pb ts"
  by (simp add: SerializeTimeSeriesToValue_def SerializeProtoToValue_def SetTag_def
      kHeaderSize_def kTagPos_def kChecksumSize_def eval_nat_numeral list_update_append)

theorem timeseries_dedup_witness:
  "ParseProtoFromValue (parse_ts example_pb) [0, 0, 0, 0, 100, 5, 3, 5]
     = Some \<lparr>start_timestamp_nanos = 0, sample_duration_nanos = 0,
          samples = [\<lparr>offset = 5, payload = ()\<rparr>, \<lparr>offset = 3, payload = ()\<rparr>, \<lparr>offset = 5, payload = ()\<rparr>]\<rparr>
   \<and> (\<exists>out. ConsolidateTimeSeriesValue example_pb [0, 0, 0, 0, 100, 5, 3, 5] =
          Some (SerializeTimeSeriesToValue example_pb
            \<lparr>start_timestamp_nanos = 0, sample_duration_nanos = 0, samples = out\<rparr>)
        \<and> sorted_wrt (\<lambda>a b. offset a <s offset b) out)
   \<and> sorted (map (\<lambda>s. sint (offset s)) [\<lparr>offset = 3, payload = ()\<rparr>, \<lparr>offset = 5 :: 32 word, payload = ()\<rparr>])
   \<and> (\<exists>out. MergeTimeSeriesValues example_pb [0, 0, 0, 0, 100, 3, 5] [0, 0, 0, 0, 100, 5, 4] True =
          Some (SerializeTimeSeriesToValue example_pb
            \<lparr>start_timestamp_nanos = 0, sample_duration_nanos = 0, samples = out\<rparr>)
        \<and> sorted_wrt (\<lambda>a b. offset a <s offset b) out)"
proof -
  let ?ts = "\<lparr>start_timestamp_nanos = 0, sample_duration_nanos = 0,
          samples = [\<lparr>offset = 5, payload = ()\<rparr>, \<lparr>offset = 3, payload = ()\<rparr>, \<lparr>offset = 5, payload = ()\<rparr>]\<rparr>
          :: unit InternalTimeSeriesData"
  let ?lts = "\<lparr>start_timestamp_nanos = 0, sample_duration_nanos = 0,
          samples = [\<lparr>offset = 3, payload = ()\<rparr>, \<lparr>offset = 5, payload = ()\<rparr>]\<rparr> :: unit InternalTimeSeriesData"
  let ?rts = "\<lparr>start_timestamp_nanos = 0, sample_duration_nanos = 0,
          samples = [\<lparr>offset = 5, payload = ()\<rparr>, \<lparr>offset = 4, payload = ()\<rparr>]\<rparr> :: unit InternalTimeSeriesData"
  have h1: "ParseProtoFromValue (parse_ts example_pb) [0, 0, 0, 0, 100, 5, 3, 5] = Some ?ts"
    by (simp add: example_defs)
  have h2: "ParseProtoFromValue (parse_ts example_pb) [0, 0, 0, 0, 100, 3, 5] = Some ?lts"
    by (simp add: example_defs)
  have h3: "ParseProtoFromValue (parse_ts example_pb) [0, 0, 0, 0, 100, 5, 4] = Some ?rts"
    by (simp add: example_defs)
  have h4: "sorted (map (\<lambda>s. sint (offset s)) (samples ?lts))" by simp
  note t = timeseries_dedup[of example_pb "[0, 0, 0, 0, 100, 5, 3, 5]" ?ts
      "[0, 0, 0, 0, 100, 3, 5]" ?lts "[0, 0, 0, 0, 100, 5, 4]" ?rts]
  from t h1 have c1: "\<exists>out. ConsolidateTimeSeriesValue example_pb [0, 0, 0, 0, 100, 5, 3, 5] =
          Some (SerializeTimeSeriesToValue example_pb
            \<lparr>start_timestamp_nanos = 0, sample_duration_nanos = 0, samples = out\<rparr>)
        \<and> sorted_wrt (\<lambda>a b. offset a <s offset b) out"
    by auto
  from t h2 h3 h4 have c2: "\<exists>out. MergeTimeSeriesValues example_pb [0, 0, 0, 0, 100, 3, 5] [0, 0, 0, 0, 100, 5, 4] True =
          Some (SerializeTimeSeriesToValue example_pb
            \<lparr>start_timestamp_nanos = 0, sample_duration_nanos = 0, samples = out\<rparr>)
        \<and> sorted_wrt (\<lambda>a b. offset a <s offset b) out"
    by auto
  from h1 c1 h4 c2 show ?thesis by simp
qed

text \<open>
  The second part of the claim as stated, for any left value, fails when the
  left samples are not sorted: the loop only joins neighbours, so the left
  offsets 5, 3, 5 (merged with an empty right value) come out as 5, 3, 5.
\<close>

theorem timeseries_merge_counterexample:
  "MergeTimeSeriesValues example_pb [0, 0, 0, 0, 100, 5, 3, 5] [0, 0, 0, 0, 100] True
     = Some [0, 0, 0, 0, 100, 5, 3, 5]
   \<and> map offset (merge_samples \<lparr>offset = 0, payload = ()\<rparr>
        [\<lparr>offset = 5, payload = ()\<rparr>, \<lparr>offset = 3, payload = ()\<rparr>, \<lparr>offset = 5, payload = ()\<rparr>]
        (stable_sort_samples [])) = [5, 3, 5]"
  by (simp add: MergeTimeSeriesValues_def SerializeTimeSeriesToValue_bytes example_pb_def
      ParseProtoFromValue_def ValueDataBytes_def kHeaderSize_def kTagPos_def kChecksumSize_def
      merge_samples.simps next_offset_def last_or_def stable_sort_samples_def)

section \<open>Properties of the delta replay\<close>


lemma ProcessDeltaKey_loop_pos:
  "0 < count \<Longrightarrow>
     pd_gets (ProcessDeltaKey_loop pb base key delta value count gets) = gets \<and>
     (case replay_entries pb value (key_entries key delta) of
        Inl err \<Rightarrow> pd_status (ProcessDeltaKey_loop pb base key delta value count gets) = Some err
      | Inr v \<Rightarrow>
          pd_status (ProcessDeltaKey_loop pb base key delta value count gets) = kSuccess \<and>
          pd_value (ProcessDeltaKey_loop pb base key delta value count gets) = v \<and>
          pd_delta (ProcessDeltaKey_loop pb base key delta value count gets)
            = dropWhile (\<lambda>e. entry_key e = key) delta)"
proof (induction delta arbitrary: "value" count)
  case Nil
  then show ?case by (simp add: key_entries_def)
next
  case (Cons entry rest)
  show ?case
  proof (cases "entry_key entry = key")
    case False
    with Cons.prems show ?thesis by (simp add: key_entries_def)
  next
    case True
    have ih: "\<And>v. pd_gets (ProcessDeltaKey_loop pb base key rest v (count + 1) gets) = gets \<and>
     (case replay_entries pb v (key_entries key rest) of
        Inl err \<Rightarrow> pd_status (ProcessDeltaKey_loop pb base key rest v (count + 1) gets) = Some err
      | Inr v' \<Rightarrow>
          pd_status (ProcessDeltaKey_loop pb base key rest v (count + 1) gets) = kSuccess \<and>
          pd_value (ProcessDeltaKey_loop pb base key rest v (count + 1) gets) = v' \<and>
          pd_delta (ProcessDeltaKey_loop pb base key rest v (count + 1) gets)
            = dropWhile (\<lambda>e. entry_key e = key) rest)"
      by (rule Cons.IH) simp
    have ke: "key_entries key (entry # rest) = entry # key_entries key rest"
      using True by (simp add: key_entries_def)
    show ?thesis
    proof (cases "entry_type entry")
      case kPutRecord
      with True Cons.prems ih[of "Some (entry_value entry)"] show ?thesis
        by (simp add: ke replay_entry_def ToDBString_def split: sum.splits)
    next
      case kMergeRecord
      show ?thesis
      proof (cases "value")
        case None
        with kMergeRecord True Cons.prems ih[of "Some (entry_value entry)"] show ?thesis
          by (simp add: ke replay_entry_def merge_into_def ToDBString_def split: sum.splits)
      next
        case (Some e)
        obtain st v where m: "DBMergeOne pb e (entry_value entry) = (st, v)" by force
        show ?thesis
        proof (cases st)
          case None
          with m Some kMergeRecord True Cons.prems ih[of v] show ?thesis
            by (simp add: ke replay_entry_def merge_into_def split: sum.splits)
        next
          case (Some err)
          with m \<open>value = Some e\<close> kMergeRecord True Cons.prems show ?thesis
            by (simp add: ke replay_entry_def merge_into_def split: sum.splits)
        qed
      qed
    next
      case kDeleteRecord
      with True Cons.prems ih[of None] show ?thesis
        by (simp add: ke replay_entry_def split: sum.splits)
    next
      case kSingleDeleteRecord
      with True Cons.prems ih[of "value"] show ?thesis
        by (simp add: ke replay_entry_def split: sum.splits)
    next
      case kDeleteRangeRecord
      with True Cons.prems ih[of "value"] show ?thesis
        by (simp add: ke replay_entry_def split: sum.splits)
    next
      case kLogDataRecord
      with True Cons.prems ih[of "value"] show ?thesis
        by (simp add: ke replay_entry_def split: sum.splits)
    next
      case kXIDRecord
      with True Cons.prems ih[of "value"] show ?thesis
        by (simp add: ke replay_entry_def split: sum.splits)
    qed
  qed
qed


text \<open>
  C6. \<^verbatim>\<open>ProcessDeltaKey\<close> computes the replay of the key's batch entries in
  insertion order: a put replaces the accumulated value, a delete clears it, a
  merge merges into the accumulated value or, as first entry, into the base
  value (its operand alone when there is none); with no entry for the key the
  base value is returned as it is. When the replay succeeds the delta iterator
  is left behind the key's entries. The base value is fetched once when the
  first entry is a merge or there is no entry, and not at all otherwise.
\<close>

theorem ProcessDeltaKey_replays_delta:
  "pd_gets (ProcessDeltaKey pb base delta key) = base_fetches (key_entries key delta) \<and>
   (case replay_delta pb base (key_entries key delta) of
      Inl err \<Rightarrow> pd_status (ProcessDeltaKey pb base delta key) = Some err
    | Inr v \<Rightarrow>
        pd_status (ProcessDeltaKey pb base delta key) = kSuccess \<and>
        pd_value (ProcessDeltaKey pb base delta key) = v \<and>
        pd_delta (ProcessDeltaKey pb base delta key) = dropWhile (\<lambda>e. entry_key e = key) delta)"
proof (cases delta)
  case Nil
  then show ?thesis
    by (simp add: ProcessDeltaKey_def key_entries_def base_fetches_def replay_delta_def kSuccess_def
        split: sum.splits)
next
  case (Cons entry rest)
  show ?thesis
  proof (cases "entry_key entry = key")
    case False
    with Cons show ?thesis
      by (simp add: ProcessDeltaKey_def key_entries_def base_fetches_def replay_delta_def
          kSuccess_def split: sum.splits)
  next
    case True
    have ke: "key_entries key (entry # rest) = entry # key_entries key rest"
      using True by (simp add: key_entries_def)
    note pos = ProcessDeltaKey_loop_pos[of 1 pb base key rest]
    show ?thesis
    proof (cases "entry_type entry = kMergeRecord")
      case False
      have "\<exists>v. ProcessDeltaKey pb base delta key = ProcessDeltaKey_loop pb base key rest v 1 0
          \<and> replay_entry pb None entry = Inr v"
        using False True Cons
        by (cases "entry_type entry") (simp_all add: ProcessDeltaKey_def replay_entry_def ToDBString_def)
      then obtain v where "ProcessDeltaKey pb base delta key = ProcessDeltaKey_loop pb base key rest v 1 0"
        and "replay_entry pb None entry = Inr v" by blast
      with False True Cons pos[of v 0] show ?thesis
        by (simp add: ke base_fetches_def replay_delta_def split: sum.splits)
    next
      case m: True
      show ?thesis
      proof (cases base)
        case (Inl err)
        with m True Cons show ?thesis
          by (simp add: ProcessDeltaKey_def ke base_fetches_def replay_delta_def)
      next
        case (Inr existing)
        show ?thesis
        proof (cases existing)
          case None
          with Inr m True Cons pos[of "Some (entry_value entry)" 1] show ?thesis
            by (simp add: ProcessDeltaKey_def ke base_fetches_def replay_delta_def replay_entry_def
                merge_into_def ToDBString_def split: sum.splits)
        next
          case (Some e)
          obtain st v where d: "DBMergeOne pb e (entry_value entry) = (st, v)" by force
          show ?thesis
          proof (cases st)
            case None
            with d Some Inr m True Cons pos[of v 1] show ?thesis
              by (simp add: ProcessDeltaKey_def ke base_fetches_def replay_delta_def replay_entry_def
                  merge_into_def split: sum.splits)
          next
            case (Some err)
            with d \<open>existing = Some e\<close> Inr m True Cons show ?thesis
              by (simp add: ProcessDeltaKey_def ke base_fetches_def replay_delta_def replay_entry_def
                  merge_into_def)
          qed
        qed
      qed
    qed
  qed
qed

lemma example_pb_fields:
  "parse_meta example_pb = example_parse_meta"
  "serialize_meta example_pb = example_serialize_meta"
  "UNKNOWN example_pb = 0" "BYTES example_pb = 3" "TIMESERIES example_pb = 100"
  by (simp_all add: example_pb_def)

lemma example_IsTimeSeriesData:
  "IsTimeSeriesData example_pb (0 # 0 # 0 # 0 # 3 # rest) = False"
  by (simp add: IsTimeSeriesData_def GetTag_def example_pb_def kHeaderSize_def kTagPos_def
      kChecksumSize_def)

theorem ProcessDeltaKey_replays_delta_witness:
  "pd_status (ProcessDeltaKey example_pb (Inr (Some [1, 0, 0, 0, 0, 3, 104, 101, 108, 108, 111]))
      [\<lparr>entry_type = kMergeRecord, entry_key = [107],
         entry_value = [1, 0, 0, 0, 0, 3, 32, 119, 111, 114, 108, 100]\<rparr>,
       \<lparr>entry_type = kPutRecord, entry_key = [108], entry_value = [1]\<rparr>] [107]) = kSuccess
   \<and> pd_value (ProcessDeltaKey example_pb (Inr (Some [1, 0, 0, 0, 0, 3, 104, 101, 108, 108, 111]))
      [\<lparr>entry_type = kMergeRecord, entry_key = [107],
         entry_value = [1, 0, 0, 0, 0, 3, 32, 119, 111, 114, 108, 100]\<rparr>,
       \<lparr>entry_type = kPutRecord, entry_key = [108], entry_value = [1]\<rparr>] [107])
      = Some [1, 0, 0, 0, 0, 3, 104, 101, 108, 108, 111, 32, 119, 111, 114, 108, 100]
   \<and> pd_gets (ProcessDeltaKey example_pb (Inr (Some [1, 0, 0, 0, 0, 3, 104, 101, 108, 108, 111]))
      [\<lparr>entry_type = kMergeRecord, entry_key = [107],
         entry_value = [1, 0, 0, 0, 0, 3, 32, 119, 111, 114, 108, 100]\<rparr>,
       \<lparr>entry_type = kPutRecord, entry_key = [108], entry_value = [1]\<rparr>] [107]) = 1"
  using ProcessDeltaKey_replays_delta[of example_pb "Inr (Some [1, 0, 0, 0, 0, 3, 104, 101, 108, 108, 111])"
      "[\<lparr>entry_type = kMergeRecord, entry_key = [107],
         entry_value = [1, 0, 0, 0, 0, 3, 32, 119, 111, 114, 108, 100]\<rparr>,
       \<lparr>entry_type = kPutRecord, entry_key = [108], entry_value = [1]\<rparr>]" "[107]"]
  by (simp add: key_entries_def base_fetches_def replay_delta_def replay_entry_def merge_into_def
      DBMergeOne_def MergeValues_def MergeResult_def example_IsTimeSeriesData ValueDataBytes_def
      kHeaderSize_def kTagPos_def kChecksumSize_def kSuccess_def
      example_pb_fields example_parse_meta_def example_serialize_meta_def MVCCMetadata_clear_def)

section \<open>Properties of the split key\<close>


lemma split_candidate_best:
  "best_split_key (split_candidate kc msk t allow dk st) = best_split_key st \<or>
   (seen st > 0 \<and> best_split_key (split_candidate kc msk t allow dk st) = dk \<and> good_split kc msk allow dk)"
  by (simp add: split_candidate_def Let_def good_split_def)

lemma split_candidate_seen [simp]:
  "seen (split_candidate kc msk t allow dk st) = seen st + 1"
  by (simp add: split_candidate_def Let_def)

lemma split_account_fields [simp]:
  "best_split_key (split_account r dk w l st) = best_split_key st"
  "seen (split_account r dk w l st) = seen st"
  by (simp_all add: split_account_def Let_def)

text \<open>Every best key other than the initial one passed the three tests.\<close>

lemma FindSplitKey_loop_best:
  "FindSplitKey_loop kc ek msk t allow rs st = Inr st' \<Longrightarrow>
     best_split_key st = sk \<or> good_split kc msk allow (best_split_key st) \<Longrightarrow>
     best_split_key st' = sk \<or> good_split kc msk allow (best_split_key st')"
proof (induction rs arbitrary: st)
  case Nil
  then show ?case by simp
next
  case (Cons r rest)
  show ?case
  proof (cases "Compare (fst r) ek < 0")
    case False
    with Cons.prems show ?thesis by simp
  next
    case True
    from Cons.prems(1) True obtain dk w l where d: "DecodeKey (fst r) 0 0 = Some (dk, w, l)"
      by (cases "DecodeKey (fst r) 0 0") auto
    let ?st1 = "split_candidate kc msk t allow dk st"
    have g1: "best_split_key ?st1 = sk \<or> good_split kc msk allow (best_split_key ?st1)"
      using Cons.prems(2) split_candidate_best[of kc msk t allow dk st] by auto
    show ?thesis
    proof (cases "best_split_diff ?st1 <s split_diff t st \<and> best_split_key ?st1 \<noteq> []")
      case b: True
      then have "st' = ?st1" using Cons.prems(1) True d by (simp add: Let_def)
      with g1 show ?thesis by simp
    next
      case b: False
      have "FindSplitKey_loop kc ek msk t allow rest (split_account r dk w l ?st1) = Inr st'"
        using Cons.prems(1) True d b by (simp add: Let_def)
      moreover have "best_split_key (split_account r dk w l ?st1) = sk
          \<or> good_split kc msk allow (best_split_key (split_account r dk w l ?st1))"
        using g1 by simp
      ultimately show ?thesis by (rule Cons.IH)
    qed
  qed
qed

text \<open>Rows whose keys fail the tests leave the best key as it is.\<close>

lemma FindSplitKey_loop_no_good:
  "FindSplitKey_loop kc ek msk t allow rs st = Inr st' \<Longrightarrow>
     \<forall>r\<in>set rs. \<forall>k w l. DecodeKey (fst r) 0 0 = Some (k, w, l) \<longrightarrow> \<not> good_split kc msk allow k \<Longrightarrow>
     best_split_key st' = best_split_key st"
proof (induction rs arbitrary: st)
  case Nil
  then show ?case by simp
next
  case (Cons r rest)
  show ?case
  proof (cases "Compare (fst r) ek < 0")
    case False
    with Cons.prems show ?thesis by simp
  next
    case True
    from Cons.prems(1) True obtain dk w l where d: "DecodeKey (fst r) 0 0 = Some (dk, w, l)"
      by (cases "DecodeKey (fst r) 0 0") auto
    let ?st1 = "split_candidate kc msk t allow dk st"
    have ng: "\<not> good_split kc msk allow dk" using Cons.prems(2) d by simp
    have g1: "best_split_key ?st1 = best_split_key st"
      using ng split_candidate_best[of kc msk t allow dk st] by auto
    show ?thesis
    proof (cases "best_split_diff ?st1 <s split_diff t st \<and> best_split_key ?st1 \<noteq> []")
      case b: True
      then have "st' = ?st1" using Cons.prems(1) True d by (simp add: Let_def)
      with g1 show ?thesis by simp
    next
      case b: False
      have "FindSplitKey_loop kc ek msk t allow rest (split_account r dk w l ?st1) = Inr st'"
        using Cons.prems(1) True d b by (simp add: Let_def)
      then have "best_split_key st' = best_split_key (split_account r dk w l ?st1)"
        using Cons.prems(2) by (intro Cons.IH) simp_all
      with g1 show ?thesis by simp
    qed
  qed
qed

text \<open>The first row is never chosen: the counter is 1 there.\<close>

lemma FindSplitKey_loop_first_row:
  assumes "FindSplitKey_loop kc ek msk t allow (r # rs) st = Inr st'" "seen st = 0"
    and "\<forall>r\<in>set rs. \<forall>k w l. DecodeKey (fst r) 0 0 = Some (k, w, l) \<longrightarrow> \<not> good_split kc msk allow k"
  shows "best_split_key st' = best_split_key st"
proof (cases "Compare (fst r) ek < 0")
  case False
  with assms show ?thesis by simp
next
  case True
  from assms(1) True obtain dk w l where d: "DecodeKey (fst r) 0 0 = Some (dk, w, l)"
    by (cases "DecodeKey (fst r) 0 0") auto
  let ?st1 = "split_candidate kc msk t allow dk st"
  have g1: "best_split_key ?st1 = best_split_key st"
    using assms(2) split_candidate_best[of kc msk t allow dk st] by auto
  show ?thesis
  proof (cases "best_split_diff ?st1 <s split_diff t st \<and> best_split_key ?st1 \<noteq> []")
    case b: True
    then have "st' = ?st1" using assms(1) True d by (simp add: Let_def)
    with g1 show ?thesis by simp
  next
    case b: False
    have "FindSplitKey_loop kc ek msk t allow rs (split_account r dk w l ?st1) = Inr st'"
      using assms(1) True d b by (simp add: Let_def)
    then have "best_split_key st' = best_split_key (split_account r dk w l ?st1)"
      using assms(3) by (rule FindSplitKey_loop_no_good)
    with g1 show ?thesis by simp
  qed
qed


lemma IsValidSplitKey_not_Meta2KeyMax:
  "IsValidSplitKey kc k allow \<Longrightarrow> k \<noteq> kMeta2KeyMax kc"
  by (auto simp add: IsValidSplitKey_def)

text \<open>
  What \<^verbatim>\<open>MVCCFindSplitKey\<close> guarantees of a key it returns, and when it
  returns none: a returned key passes \<^verbatim>\<open>IsValidSplitKey\<close> (so it is not
  \<^verbatim>\<open>Meta2KeyMax\<close>) and is not below \<^verbatim>\<open>min_split\<close>; and when no row of the
  scanned range after the first one has a key passing both tests, nothing is
  returned.
\<close>

theorem MVCCFindSplitKey_valid:
  "(MVCCFindSplitKey kc store start end_k min_split target_sz allow = (stat, Some k) \<longrightarrow>
      stat = kSuccess \<and> IsValidSplitKey kc k allow \<and> k \<noteq> kMeta2KeyMax kc
      \<and> slice_compare k (dbkey min_split) \<ge> 0)
   \<and> ((\<forall>r\<in>set (tl (drop (seek_index store (EncodeDBKey start)) store)).
          \<forall>k w l. DecodeKey (fst r) 0 0 = Some (k, w, l) \<longrightarrow>
            \<not> (IsValidSplitKey kc k allow \<and> slice_compare k (dbkey min_split) \<ge> 0)) \<longrightarrow>
        snd (MVCCFindSplitKey kc store start end_k min_split target_sz allow) = None)"
proof (intro conjI impI)
  let ?sk = "EncodeDBKey start"
  let ?st0 = "\<lparr>size_so_far = 0, best_split_key = ?sk,
                 best_split_diff = 0x7FFFFFFFFFFFFFFF, prev_key = [], seen = 0\<rparr>"
  let ?loop = "FindSplitKey_loop kc (EncodeDBKey end_k) (dbkey min_split) target_sz allow
                (drop (seek_index store ?sk) store) ?st0"
  {
    assume a: "MVCCFindSplitKey kc store start end_k min_split target_sz allow = (stat, Some k)"
    then obtain st where l: "?loop = Inr st"
      by (cases ?loop) (simp_all add: MVCCFindSplitKey_def Let_def)
    with a have k: "best_split_key st = k" "k \<noteq> ?sk" and s: "stat = kSuccess"
      by (auto simp add: MVCCFindSplitKey_def Let_def ToDBString_def split: if_splits)
    have "best_split_key st = ?sk \<or> good_split kc (dbkey min_split) allow (best_split_key st)"
      using l by (rule FindSplitKey_loop_best) simp
    with k have g: "good_split kc (dbkey min_split) allow k" by simp
    show "stat = kSuccess" by (rule s)
    show "IsValidSplitKey kc k allow" using g by (simp add: good_split_def)
    then show "k \<noteq> kMeta2KeyMax kc" by (rule IsValidSplitKey_not_Meta2KeyMax)
    show "slice_compare k (dbkey min_split) \<ge> 0" using g by (simp add: good_split_def)
  }
  assume n: "\<forall>r\<in>set (tl (drop (seek_index store ?sk) store)).
          \<forall>k w l. DecodeKey (fst r) 0 0 = Some (k, w, l) \<longrightarrow>
            \<not> (IsValidSplitKey kc k allow \<and> slice_compare k (dbkey min_split) \<ge> 0)"
  show "snd (MVCCFindSplitKey kc store start end_k min_split target_sz allow) = None"
  proof (cases ?loop)
    case (Inl err)
    then show ?thesis by (simp add: MVCCFindSplitKey_def Let_def)
  next
    case (Inr st)
    have "best_split_key st = best_split_key ?st0"
    proof (cases "drop (seek_index store ?sk) store")
      case Nil
      with Inr show ?thesis by simp
    next
      case (Cons r rs)
      with n have "\<forall>r\<in>set rs. \<forall>k w l. DecodeKey (fst r) 0 0 = Some (k, w, l) \<longrightarrow>
          \<not> good_split kc (dbkey min_split) allow k"
        by (simp add: good_split_def)
      with Inr Cons show ?thesis
        using FindSplitKey_loop_first_row[of kc "EncodeDBKey end_k" "dbkey min_split" target_sz allow r rs ?st0 st]
        by simp
    qed
    with Inr show ?thesis by (simp add: MVCCFindSplitKey_def Let_def)
  qed
qed

theorem MVCCFindSplitKey_valid_witness:
  "MVCCFindSplitKey example_keys
      [(EncodeKey [97] 2 0, [1]), (EncodeKey [98] 1 0, [1]), (EncodeKey [99] 1 0, [1])]
      \<lparr>dbkey = [97], dbkey_wall_time = 0, dbkey_logical = 0\<rparr>
      \<lparr>dbkey = [255], dbkey_wall_time = 0, dbkey_logical = 0\<rparr>
      \<lparr>dbkey = [97], dbkey_wall_time = 0, dbkey_logical = 0\<rparr> 10 True = (kSuccess, Some [98])
   \<and> IsValidSplitKey example_keys [98] True \<and> slice_compare [98] [97] \<ge> 0
   \<and> snd (MVCCFindSplitKey example_keys [(EncodeKey [97] 2 0, [1])]
      \<lparr>dbkey = [97], dbkey_wall_time = 0, dbkey_logical = 0\<rparr>
      \<lparr>dbkey = [255], dbkey_wall_time = 0, dbkey_logical = 0\<rparr>
      \<lparr>dbkey = [97], dbkey_wall_time = 0, dbkey_logical = 0\<rparr> 10 True) = None"
proof -
  have e: "MVCCFindSplitKey example_keys
      [(EncodeKey [97] 2 0, [1]), (EncodeKey [98] 1 0, [1]), (EncodeKey [99] 1 0, [1])]
      \<lparr>dbkey = [97], dbkey_wall_time = 0, dbkey_logical = 0\<rparr>
      \<lparr>dbkey = [255], dbkey_wall_time = 0, dbkey_logical = 0\<rparr>
      \<lparr>dbkey = [97], dbkey_wall_time = 0, dbkey_logical = 0\<rparr> 10 True = (kSuccess, Some [98])"
    by (simp add: MVCCFindSplitKey_def EncodeDBKey_def seek_index_def Compare_EncodeKey
        DecodeKey_EncodeKey split_candidate_def split_diff_def split_account_def Let_def
        kMVCCVersionTimestampSize_def ToDBString_def kSuccess_def word_sless_alt
        IsValidSplitKey_def example_keys_def)
      (simp add: EncodeKey_meta)
  have s: "seek_index [(EncodeKey [97] 2 0, [1::byte])] (EncodeKey [97] 0 0) = 0"
    by (simp add: seek_index_def Compare_EncodeKey)
  show ?thesis
    using MVCCFindSplitKey_valid[of example_keys
        "[(EncodeKey [97] 2 0, [1]), (EncodeKey [98] 1 0, [1]), (EncodeKey [99] 1 0, [1])]"
        "\<lparr>dbkey = [97], dbkey_wall_time = 0, dbkey_logical = 0\<rparr>"
        "\<lparr>dbkey = [255], dbkey_wall_time = 0, dbkey_logical = 0\<rparr>"
        "\<lparr>dbkey = [97], dbkey_wall_time = 0, dbkey_logical = 0\<rparr>" 10 True kSuccess "[98]"]
      MVCCFindSplitKey_valid[of example_keys "[(EncodeKey [97] 2 0, [1])]"
        "\<lparr>dbkey = [97], dbkey_wall_time = 0, dbkey_logical = 0\<rparr>"
        "\<lparr>dbkey = [255], dbkey_wall_time = 0, dbkey_logical = 0\<rparr>"
        "\<lparr>dbkey = [97], dbkey_wall_time = 0, dbkey_logical = 0\<rparr>" 10 True]
      e s
    by (simp add: EncodeDBKey_def)
qed

text \<open>
  C8. The claim holds except for its first part: the test \<^verbatim>\<open>n > 1\<close> excludes
  the first row, not the first key. When the first key of the range has two
  store (two versions, or an intent and its version), its second row is a
  candidate like any other, and the first key of the range is returned as
  split key whenever \<^verbatim>\<open>IsValidSplitKey\<close> accepts it.
\<close>

theorem MVCCFindSplitKey_returns_first_key:
  "IsValidSplitKey kc [97] True \<Longrightarrow>
     MVCCFindSplitKey kc
       [(EncodeKey [97] 2 0, [1]), (EncodeKey [97] 1 0, [1]), (EncodeKey [98] 1 0, [1])]
       \<lparr>dbkey = [97], dbkey_wall_time = 0, dbkey_logical = 0\<rparr>
       \<lparr>dbkey = [255], dbkey_wall_time = 0, dbkey_logical = 0\<rparr>
       \<lparr>dbkey = [97], dbkey_wall_time = 0, dbkey_logical = 0\<rparr> 10 True
     = (kSuccess, Some [97])"
  by (simp add: MVCCFindSplitKey_def EncodeDBKey_def seek_index_def Compare_EncodeKey
      DecodeKey_EncodeKey split_candidate_def split_diff_def split_account_def Let_def
      kMVCCVersionTimestampSize_def ToDBString_def kSuccess_def word_sless_alt)
    (simp add: EncodeKey_meta)

theorem MVCCFindSplitKey_returns_first_key_witness:
  "IsValidSplitKey example_keys [97] True \<and>
     MVCCFindSplitKey example_keys
       [(EncodeKey [97] 2 0, [1]), (EncodeKey [97] 1 0, [1]), (EncodeKey [98] 1 0, [1])]
       \<lparr>dbkey = [97], dbkey_wall_time = 0, dbkey_logical = 0\<rparr>
       \<lparr>dbkey = [255], dbkey_wall_time = 0, dbkey_logical = 0\<rparr>
       \<lparr>dbkey = [97], dbkey_wall_time = 0, dbkey_logical = 0\<rparr> 10 True
     = (kSuccess, Some [97])"
proof -
  have v: "IsValidSplitKey example_keys [97] True"
    by (simp add: IsValidSplitKey_def example_keys_def)
  with MVCCFindSplitKey_returns_first_key[OF v] show ?thesis by simp
qed

section \<open>The scanner: what a step may change\<close>

declare fmt_u.simps [simp del]


lemma same_scan_refl [simp]: "same_scan s s"
  by (simp add: same_scan_def)

lemma same_scan_trans: "same_scan s s1 \<Longrightarrow> same_scan s1 s2 \<Longrightarrow> same_scan s s2"
  by (simp add: same_scan_def)

lemma same_scan_upd [simp]:
  "same_scan s (s'\<lparr>iters_before_seek := x\<rparr>) = same_scan s s'"
  "same_scan s (s'\<lparr>peeked := p\<rparr>) = same_scan s s'"
  "same_scan s (s'\<lparr>iter_pos := i\<rparr>) = same_scan s s'"
  "same_scan s (s'\<lparr>status := st\<rparr>) = same_scan s s'"
  "same_scan s (s'\<lparr>cur_key := k\<rparr>) = same_scan s s'"
  "same_scan s (s'\<lparr>cur_raw_key := k\<rparr>) = same_scan s s'"
  "same_scan s (s'\<lparr>cur_value := k\<rparr>) = same_scan s s'"
  "same_scan s (s'\<lparr>cur_timestamp := t\<rparr>) = same_scan s s'"
  "same_scan (s\<lparr>iters_before_seek := x\<rparr>) s' = same_scan s s'"
  "same_scan (s\<lparr>peeked := p\<rparr>) s' = same_scan s s'"
  "same_scan (s\<lparr>iter_pos := i\<rparr>) s' = same_scan s s'"
  "same_scan (s\<lparr>status := st\<rparr>) s' = same_scan s s'"
  "same_scan (s\<lparr>cur_key := k\<rparr>) s' = same_scan s s'"
  "same_scan (s\<lparr>cur_raw_key := k\<rparr>) s' = same_scan s s'"
  "same_scan (s\<lparr>cur_value := k\<rparr>) s' = same_scan s s'"
  "same_scan (s\<lparr>cur_timestamp := t\<rparr>) s' = same_scan s s'"
  by (simp_all add: same_scan_def)

lemma updateCurrent_same0: "same_scan s (snd (updateCurrent s))"
  by (auto simp add: updateCurrent_def setStatus_def Let_def split: option.splits)

lemma updateCurrent_same [simp]: "same_scan s s0 \<Longrightarrow> same_scan s (snd (updateCurrent s0))"
  using updateCurrent_same0[of s0] same_scan_trans by blast

lemma clearPeeked_same [simp]: "same_scan s (clearPeeked s0) = same_scan s s0"
  by (simp add: clearPeeked_def)

lemma rows_clearPeeked [simp]: "rows (clearPeeked s) = rows s"
  by (simp add: clearPeeked_def)

lemma iterSeek_same [simp]: "same_scan s s0 \<Longrightarrow> same_scan s (snd (iterSeek key s0))"
  by (simp add: iterSeek_def)

lemma iterNext_same [simp]: "same_scan s s0 \<Longrightarrow> same_scan s (snd (iterNext s0))"
  by (simp add: iterNext_def Let_def)

lemma iterPrev_same [simp]: "same_scan s s0 \<Longrightarrow> same_scan s (snd (iterPrev s0))"
  by (simp add: iterPrev_def)

lemma peek_key_same [simp]: "same_scan s s0 \<Longrightarrow> same_scan s (snd (snd (peek_key s0)))"
  by (auto simp add: peek_key_def setStatus_def split: option.splits)

lemma iterPeekPrev_same [simp]: "same_scan s s0 \<Longrightarrow> same_scan s (snd (snd (iterPeekPrev s0)))"
  by (auto simp add: iterPeekPrev_def setStatus_def Let_def split: option.splits)

lemma nextKey_loop_same [simp]:
  "same_scan s s0 \<Longrightarrow> same_scan s (snd (nextKey_loop k key_buf s0))"
proof (induction k arbitrary: s0)
  case 0
  then show ?case by simp
next
  case (Suc k)
  have "same_scan s (snd (iterNext s0))" using Suc.prems by simp
  then show ?case using Suc.IH[of "snd (iterNext s0)"]
    by (cases "iterNext s0") (auto split: bool.splits)
qed

lemma nextKey_same [simp]: "same_scan s s0 \<Longrightarrow> same_scan s (snd (nextKey s0))"
  by (simp add: nextKey_def)

lemma backwardLatestVersion_loop_same [simp]:
  "same_scan s s0 \<Longrightarrow> same_scan s (snd (backwardLatestVersion_loop k key_buf s0))"
proof (induction k arbitrary: s0)
  case 0
  then show ?case by simp
next
  case (Suc k)
  obtain b pk s1 where p: "iterPeekPrev s0 = (b, pk, s1)" by (cases "iterPeekPrev s0") auto
  have 1: "same_scan s s1" using Suc.prems iterPeekPrev_same[of s s0] p by simp
  obtain b2 s2 where q: "iterPrev s1 = (b2, s2)" by force
  have 2: "same_scan s s2" using 1 iterPrev_same[of s s1] q by simp
  show ?case using p q 1 2 Suc.IH[of s2]
    by (auto split: bool.splits)
qed

lemma backwardLatestVersion_same [simp]:
  "same_scan s s0 \<Longrightarrow> same_scan s (snd (backwardLatestVersion key i s0))"
  by (simp add: backwardLatestVersion_def)

lemma iterSeekReverse_same [simp]:
  "same_scan s s0 \<Longrightarrow> same_scan s (snd (iterSeekReverse key s0))"
proof -
  assume a: "same_scan s s0"
  let ?u = "updateCurrent ((clearPeeked s0)\<lparr>iter_pos := it_seek_for_prev (rows s0) key\<rparr>)"
  have "same_scan s (snd ?u)" using a by simp
  then show ?thesis
    by (cases ?u) (auto simp add: iterSeekReverse_def split: bool.splits)
qed

lemma prevKey_loop_same [simp]:
  "same_scan s s0 \<Longrightarrow> same_scan s (snd (prevKey_loop k i key_buf s0))"
proof (induction k arbitrary: s0 i)
  case 0
  then show ?case by simp
next
  case (Suc k)
  obtain b pk s1 where p: "iterPeekPrev s0 = (b, pk, s1)" by (cases "iterPeekPrev s0") auto
  have 1: "same_scan s s1" using Suc.prems iterPeekPrev_same[of s s0] p by simp
  obtain b2 s2 where q: "iterPrev s1 = (b2, s2)" by force
  have 2: "same_scan s s2" using 1 iterPrev_same[of s s1] q by simp
  show ?case using p q 1 2 Suc.IH[of s2]
    by (auto split: bool.splits)
qed

lemma prevKey_same [simp]: "same_scan s s0 \<Longrightarrow> same_scan s (snd (prevKey key s0))"
  by (simp add: prevKey_def)

lemma advanceKey_same [simp]: "same_scan s s0 \<Longrightarrow> same_scan s (snd (advanceKey s0))"
  by (simp add: advanceKey_def)

lemma advanceKeyAtEnd_same [simp]: "same_scan s s0 \<Longrightarrow> same_scan s (snd (advanceKeyAtEnd s0))"
proof -
  assume a: "same_scan s s0"
  let ?u = "updateCurrent ((clearPeeked s0)\<lparr>iter_pos := it_last (rows s0)\<rparr>)"
  have "same_scan s (snd ?u)" using a by simp
  then show ?thesis
    by (cases ?u) (auto simp add: advanceKeyAtEnd_def a split: bool.splits)
qed

lemma advanceKeyAtNewKey_same [simp]:
  "same_scan s s0 \<Longrightarrow> same_scan s (snd (advanceKeyAtNewKey key s0))"
  by (simp add: advanceKeyAtNewKey_def)


subsection \<open>Rows collected by one step\<close>

lemma emits_imp_any: "emits K b s s' \<Longrightarrow> emits_any b s s'"
  by (auto simp add: emits_def emits_any_def)

lemma same_scan_emits: "same_scan s s' \<Longrightarrow> emits K b s s'"
  by (simp add: same_scan_def emits_def)

lemma emits_rebase:
  "kvs s0 = kvs s \<Longrightarrow> max_keys s0 = max_keys s \<Longrightarrow> emits K b s0 s' \<Longrightarrow> emits K b s s'"
  by (simp add: emits_def)

lemma emits_any_rebase:
  "kvs s0 = kvs s \<Longrightarrow> max_keys s0 = max_keys s \<Longrightarrow> emits_any b s0 s' \<Longrightarrow> emits_any b s s'"
  by (simp add: emits_any_def)

lemma same_scan_kvs: "same_scan s s' \<Longrightarrow> kvs s' = kvs s \<and> max_keys s' = max_keys s"
  by (simp add: same_scan_def)

lemma updateCurrent_decodes: "updateCurrent s = (True, s1) \<Longrightarrow> decodes_cur s1"
  by (auto simp add: updateCurrent_def setStatus_def Let_def decodes_cur_def split: option.splits)

lemma iterNext_decodes: "iterNext s = (True, s1) \<Longrightarrow> decodes_cur s1"
  by (auto simp add: iterNext_def Let_def dest: updateCurrent_decodes split: if_splits)

lemma iterSeek_decodes: "iterSeek key s = (True, s1) \<Longrightarrow> decodes_cur s1"
  by (auto simp add: iterSeek_def dest: updateCurrent_decodes)

lemma uncertaintyError_emits: "emits K (fst (uncertaintyError ts s)) s (snd (uncertaintyError ts s))"
  by (simp add: uncertaintyError_def emits_def)

lemma setStatus_emits: "emits K (fst (setStatus m s)) s (snd (setStatus m s))"
  by (simp add: setStatus_def emits_def)

lemma addAndAdvance_emits_any: "emits_any (fst (addAndAdvance v s)) s (snd (addAndAdvance v s))"
proof (cases "length v > 0")
  case False
  have "same_scan s (snd (advanceKey s))" by simp
  then show ?thesis using False by (simp add: addAndAdvance_def emits_any_def same_scan_def)
next
  case True
  let ?s1 = "s\<lparr>kvs := kvs s @ [(cur_raw_key s, v)]\<rparr>"
  have a: "same_scan ?s1 (snd (advanceKey ?s1))" by simp
  show ?thesis
  proof (cases "int (length (kvs ?s1)) > sint (max_keys ?s1)")
    case t: True
    with True show ?thesis by (simp add: addAndAdvance_def emits_any_def Let_def)
  next
    case False
    with True a show ?thesis
      by (auto simp add: addAndAdvance_def emits_any_def Let_def same_scan_def)
  qed
qed

lemma addAndAdvance_emits:
  assumes "decodes_cur s"
  shows "emits (cur_key s) (fst (addAndAdvance v s)) s (snd (addAndAdvance v s))"
proof (cases "length v > 0")
  case False
  have "same_scan s (snd (advanceKey s))" by simp
  then show ?thesis using False by (simp add: addAndAdvance_def emits_def same_scan_def)
next
  case True
  let ?s1 = "s\<lparr>kvs := kvs s @ [(cur_raw_key s, v)]\<rparr>"
  have a: "same_scan ?s1 (snd (advanceKey ?s1))" by simp
  from assms obtain w l where d: "DecodeKey (cur_raw_key s) 0 0 = Some (cur_key s, w, l)"
    by (auto simp add: decodes_cur_def)
  show ?thesis
  proof (cases "int (length (kvs ?s1)) > sint (max_keys ?s1)")
    case t: True
    with True d show ?thesis by (simp add: addAndAdvance_def emits_def Let_def)
  next
    case False
    with True a d show ?thesis
      by (auto simp add: addAndAdvance_def emits_def Let_def same_scan_def)
  qed
qed

lemma found_version_emits:
  "decodes_cur s \<Longrightarrow> emits (cur_key s) (fst (found_version chk s)) s (snd (found_version chk s))"
  by (simp add: found_version_def uncertaintyError_emits addAndAdvance_emits)

lemma decodes_cur_ibs [simp]: "decodes_cur (s\<lparr>iters_before_seek := x\<rparr>) = decodes_cur s"
  by (simp add: decodes_cur_def)

lemma seekVersion_loop_emits:
  "emits K (fst (seekVersion_loop k K d chk s)) s (snd (seekVersion_loop k K d chk s))"
proof (induction k arbitrary: s)
  case 0
  let ?s0 = "s\<lparr>iters_before_seek := max 1 (iters_before_seek s - 1)\<rparr>"
  obtain b s1 where i: "iterSeek (EncodeKey K (wall_time d) (logical d)) ?s0 = (b, s1)" by force
  have ss: "same_scan s s1" using iterSeek_same[of s ?s0 "EncodeKey K (wall_time d) (logical d)"] i by simp
  note kv = same_scan_kvs[OF ss]
  show ?case
  proof (cases b)
    case False
    have "same_scan s (snd (advanceKeyAtEnd s1))" using ss by simp
    then show ?thesis using i False by (simp add: same_scan_emits)
  next
    case True
    with i have "iterSeek (EncodeKey K (wall_time d) (logical d)) ?s0 = (True, s1)" by simp
    then have dc: "decodes_cur s1" by (rule iterSeek_decodes)
    show ?thesis
    proof (cases "cur_key s1 \<noteq> K")
      case t: True
      have "same_scan s (snd (advanceKeyAtNewKey K s1))" using ss by simp
      then show ?thesis using i True t by (simp add: same_scan_emits)
    next
      case f: False
      show ?thesis
      proof (cases "ts_ge d (cur_timestamp s1)")
        case t: True
        have "emits K (fst (found_version chk s1)) s1 (snd (found_version chk s1))"
          using found_version_emits[OF dc, of chk] f by simp
        then have "emits K (fst (found_version chk s1)) s (snd (found_version chk s1))"
          using kv by (simp add: emits_def)
        then show ?thesis using i True f t by simp
      next
        case f2: False
        have "same_scan s (snd (advanceKey s1))" using ss by simp
        then show ?thesis using i True f f2 by (simp add: same_scan_emits)
      qed
    qed
  qed
next
  case (Suc k)
  obtain b s1 where i: "iterNext s = (b, s1)" by force
  have ss: "same_scan s s1" using iterNext_same[of s s] i by simp
  note kv = same_scan_kvs[OF ss]
  show ?case
  proof (cases b)
    case False
    have "same_scan s (snd (advanceKeyAtEnd s1))" using ss by simp
    then show ?thesis using i False by (simp add: same_scan_emits)
  next
    case True
    with i have "iterNext s = (True, s1)" by simp
    then have dc: "decodes_cur s1" by (rule iterNext_decodes)
    show ?thesis
    proof (cases "cur_key s1 \<noteq> K")
      case t: True
      let ?s2 = "s1\<lparr>iters_before_seek := min kMaxItersBeforeSeek (iters_before_seek s1 + 1)\<rparr>"
      have "same_scan s (snd (advanceKeyAtNewKey K ?s2))" using ss by simp
      then show ?thesis using i True t by (simp add: same_scan_emits)
    next
      case f: False
      show ?thesis
      proof (cases "ts_ge d (cur_timestamp s1)")
        case t: True
        let ?s2 = "s1\<lparr>iters_before_seek := min kMaxItersBeforeSeek (iters_before_seek s1 + 1)\<rparr>"
        have "emits (cur_key ?s2) (fst (found_version chk ?s2)) ?s2 (snd (found_version chk ?s2))"
          using dc by (intro found_version_emits) simp
        then have "emits K (fst (found_version chk ?s2)) ?s2 (snd (found_version chk ?s2))"
          using f by simp
        then have "emits K (fst (found_version chk ?s2)) s (snd (found_version chk ?s2))"
          using kv by (simp add: emits_def)
        then show ?thesis using i True f t by simp
      next
        case f2: False
        have "emits K (fst (seekVersion_loop k K d chk s1)) s (snd (seekVersion_loop k K d chk s1))"
          using Suc[of s1] kv by (simp add: emits_def)
        then show ?thesis using i True f f2 by simp
      qed
    qed
  qed
qed

lemma seekVersion_emits:
  "emits (cur_key s) (fst (seekVersion d chk s)) s (snd (seekVersion d chk s))"
  by (simp add: seekVersion_def seekVersion_loop_emits)

lemma seekVersion_prev_emits:
  "emits (cur_key s) (fst (seekVersion_prev ts s)) s (snd (seekVersion_prev ts s))"
proof (cases "PrevTimestamp ts")
  case None
  then show ?thesis by (simp add: seekVersion_prev_def emits_def)
next
  case (Some a)
  then show ?thesis by (simp add: seekVersion_prev_def seekVersion_emits)
qed

lemma getAndAdvance_emits:
  assumes "decodes_cur s"
  shows "emits (cur_key s) (fst (getAndAdvance pb s)) s (snd (getAndAdvance pb s))"
proof -
  let ?si = "s\<lparr>intents := intents s @ [(cur_raw_key s, cur_value s)]\<rparr>"
  have i1: "emits (cur_key s) (fst (seekVersion_prev t ?si)) s (snd (seekVersion_prev t ?si))" for t
    using seekVersion_prev_emits[of ?si t] by (simp add: emits_def)
  have i2: "emits (cur_key s) (fst (advanceKey ?si)) s (snd (advanceKey ?si))"
    using advanceKey_same[of ?si ?si] by (simp add: same_scan_def emits_def)
  show ?thesis
    using assms i1 i2
    by (simp add: getAndAdvance_def Let_def addAndAdvance_emits uncertaintyError_emits
        seekVersion_emits seekVersion_prev_emits setStatus_emits split: option.splits)
qed

lemma getAndAdvance_emits_any:
  "emits_any (fst (getAndAdvance pb s)) s (snd (getAndAdvance pb s))"
proof -
  let ?si = "s\<lparr>intents := intents s @ [(cur_raw_key s, cur_value s)]\<rparr>"
  have i1: "emits_any (fst (seekVersion_prev t ?si)) s (snd (seekVersion_prev t ?si))" for t
    using seekVersion_prev_emits[of ?si t, THEN emits_imp_any]
    by (simp add: emits_any_def)
  have i2: "emits_any (fst (advanceKey ?si)) s (snd (advanceKey ?si))"
    using advanceKey_same[of ?si ?si] by (simp add: same_scan_def emits_any_def)
  show ?thesis
    using i1 i2
    by (simp add: getAndAdvance_def Let_def addAndAdvance_emits_any
        uncertaintyError_emits[THEN emits_imp_any]
        seekVersion_emits[THEN emits_imp_any] seekVersion_prev_emits[THEN emits_imp_any]
        setStatus_emits[THEN emits_imp_any] split: option.splits)
qed


subsection \<open>The scan loop\<close>

lemma scan_loop_mono:
  "scan_loop fuel pb s = Some r \<Longrightarrow> scan_loop (fuel + n) pb s = Some r"
proof (induction fuel arbitrary: s)
  case 0
  then show ?case by simp
next
  case (Suc fuel)
  obtain b s1 where g: "getAndAdvance pb s = (b, s1)" by force
  show ?case
    using Suc.prems Suc.IH[of s1] g by (cases b) (auto split: if_splits)
qed


lemma emits_any_limit:
  "emits_any b s s' \<Longrightarrow> int (length (kvs s)) \<le> max (sint (max_keys s)) 0 \<Longrightarrow>
     int (length (kvs s')) \<le> max (sint (max_keys s)) 0 + 1
     \<and> (b \<longrightarrow> int (length (kvs s')) \<le> max (sint (max_keys s)) 0)"
  by (auto simp add: emits_any_def)

lemma emits_any_max_keys: "emits_any b s s' \<Longrightarrow> max_keys s' = max_keys s"
  by (simp add: emits_any_def)


lemma scan_loop_limit:
  "scan_loop fuel pb s = Some s' \<Longrightarrow> int (length (kvs s)) \<le> max (sint (max_keys s)) 0 \<Longrightarrow>
     int (length (kvs s')) \<le> max (sint (max_keys s)) 0 + 1"
proof (induction fuel arbitrary: s)
  case 0
  then show ?case by simp
next
  case (Suc fuel)
  obtain b s1 where g: "getAndAdvance pb s = (b, s1)" by force
  have e: "emits_any b s s1" using getAndAdvance_emits_any[of pb s] g by simp
  note l1 = emits_any_limit[OF e Suc.prems(2)]
  note m1 = emits_any_max_keys[OF e]
  show ?case
  proof (cases "if reverse s then slice_compare (cur_key s) (end_key s) \<ge> 0
                else slice_compare (cur_key s) (end_key s) < 0")
    case False
    with Suc.prems show ?thesis by (simp split: if_splits)
  next
    case True
    show ?thesis
    proof (cases b)
      case b: True
      with True g Suc.prems(1) have "scan_loop fuel pb s1 = Some s'" by (simp split: if_splits)
      then have "int (length (kvs s')) \<le> max (sint (max_keys s1)) 0 + 1"
        using l1 b m1 by (intro Suc.IH) simp_all
      then show ?thesis using m1 by simp
    next
      case b: False
      with True g Suc.prems(1) have "s' = s1" by (simp split: if_splits)
      then show ?thesis using l1 by simp
    qed
  qed
qed

lemma res_data_fillResults: "res_data (fillResults s) = (if status s = None then kvs s else [])"
  by (simp add: fillResults_def rawResults_def)

lemma res_data_rawResults [simp]: "res_data (rawResults s) = []"
  by (simp add: rawResults_def)

lemma mvccScanner_fields [simp]:
  "kvs (mvccScanner rv store start end_k ts max_k t cons) = []"
  "max_keys (mvccScanner rv store start end_k ts max_k t cons) = max_k"
  "start_key (mvccScanner rv store start end_k ts max_k t cons) = start"
  "reverse (mvccScanner rv store start end_k ts max_k t cons) = rv"
  by (simp_all add: mvccScanner_def)


lemma scanner_scan_limit:
  assumes "scanner_scan fuel pb s = Some res" and "kvs s = []"
  shows "int (length (res_data res)) \<le> max (sint (max_keys s) + 1) 1"
proof -
  let ?p = "if reverse s then iterSeekReverse (EncodeKey (start_key s) 0 0) s
            else iterSeek (EncodeKey (start_key s) 0 0) s"
  obtain b s1 where p: "?p = (b, s1)" by force
  have "same_scan s (snd ?p)" by simp
  with p assms(2) have k1: "kvs s1 = []" and m1: "max_keys s1 = max_keys s"
    by (simp_all add: same_scan_def)
  show ?thesis
  proof (cases b)
    case False
    with p assms(1) show ?thesis by (auto simp add: scanner_scan_def)
  next
    case True
    with p assms(1) obtain s' where l: "scan_loop fuel pb s1 = Some s'" and r: "res = fillResults s'"
      by (auto simp add: scanner_scan_def)
    from scan_loop_limit[OF l] k1 m1
    have "int (length (kvs s')) \<le> max (sint (max_keys s)) 0 + 1" by simp
    then have "int (length (kvs s')) \<le> max (sint (max_keys s) + 1) 1" by linarith
    with r show ?thesis by (simp add: res_data_fillResults)
  qed
qed

lemma scanner_get_rows:
  assumes "kvs s = []"
  shows "res_data (scanner_get pb s) = [] \<or>
         (\<exists>k v w l. v \<noteq> [] \<and> res_data (scanner_get pb s) = [(k, v)]
            \<and> DecodeKey k 0 0 = Some (start_key s, w, l))"
proof -
  obtain b s1 where p: "iterSeek (EncodeKey (start_key s) 0 0) s = (b, s1)" by force
  have "same_scan s (snd (iterSeek (EncodeKey (start_key s) 0 0) s))" by simp
  with p assms have k1: "kvs s1 = []" and st: "start_key s1 = start_key s"
    by (simp_all add: same_scan_def)
  show ?thesis
  proof (cases b)
    case False
    with p show ?thesis by (simp add: scanner_get_def)
  next
    case True
    with p have "iterSeek (EncodeKey (start_key s) 0 0) s = (True, s1)" by simp
    then have dc: "decodes_cur s1" by (rule iterSeek_decodes)
    show ?thesis
    proof (cases "cur_key s1 = start_key s1")
      case False
      with True p k1 show ?thesis by (simp add: scanner_get_def res_data_fillResults)
    next
      case e: True
      have "emits (cur_key s1) (fst (getAndAdvance pb s1)) s1 (snd (getAndAdvance pb s1))"
        using dc by (rule getAndAdvance_emits)
      with k1 e st have
        "kvs (snd (getAndAdvance pb s1)) = [] \<or>
         (\<exists>k v w l. v \<noteq> [] \<and> kvs (snd (getAndAdvance pb s1)) = [(k, v)]
            \<and> DecodeKey k 0 0 = Some (start_key s, w, l))"
        by (auto simp add: emits_def)
      with True p e show ?thesis by (auto simp add: scanner_get_def res_data_fillResults)
    qed
  qed
qed


lemma kvs_advanceKey: "kvs (snd (advanceKey s)) = kvs s"
  using advanceKey_same[of s s] by (simp add: same_scan_def)


subsection \<open>The row limit\<close>

text \<open>
  A step that adds a row and leaves more rows than the limit allows ends the
  scan: the loop returns the state after this step.
\<close>

lemma scan_loop_stops:
  assumes "if reverse s then slice_compare (cur_key s) (end_key s) \<ge> 0
           else slice_compare (cur_key s) (end_key s) < 0"
    and "length (kvs s) < length (kvs (snd (getAndAdvance pb s)))"
    and "sint (max_keys s) < int (length (kvs (snd (getAndAdvance pb s))))"
  shows "scan_loop (Suc fuel) pb s = Some (snd (getAndAdvance pb s))"
proof -
  obtain b s1 where g: "getAndAdvance pb s = (b, s1)" by force
  have "emits_any b s s1" using getAndAdvance_emits_any[of pb s] g by simp
  with assms(2,3) g have "\<not> b" by (auto simp add: emits_any_def)
  with assms(1) g show ?thesis by (simp split: if_splits)
qed

text \<open>
  Claim C5 (as amended). A forward or reverse \<^verbatim>\<open>MVCCScan\<close> with the limit
  \<open>max_keys\<close> returns at most \<open>max_keys + 1\<close> rows, and at most one row when
  \<open>max_keys\<close> is negative; this holds after any number of iterations of the
  scan loop. The loop stops with the step that adds a row beyond \<open>max_keys\<close>.
  \<^verbatim>\<open>MVCCGet\<close> returns no row or one row, and the key of that row decodes to the
  requested key (and its value is not empty).
\<close>

theorem MVCCScan_row_limit:
  "(MVCCScan fuel pb store start end_k ts max_k t cons rv = Some res
       \<longrightarrow> int (length (res_data res)) \<le> max (sint max_k + 1) 1)
   \<and> ((if reverse s then slice_compare (cur_key s) (end_key s) \<ge> 0
         else slice_compare (cur_key s) (end_key s) < 0)
        \<and> length (kvs s) < length (kvs (snd (getAndAdvance pb s)))
        \<and> sint (max_keys s) < int (length (kvs (snd (getAndAdvance pb s))))
       \<longrightarrow> scan_loop (Suc fuel) pb s = Some (snd (getAndAdvance pb s)))
   \<and> (res_data (MVCCGet pb store key ts t cons) = [] \<or>
       (\<exists>k v w l. v \<noteq> [] \<and> res_data (MVCCGet pb store key ts t cons) = [(k, v)]
          \<and> DecodeKey k 0 0 = Some (key, w, l)))"
proof -
  have a: "int (length (res_data res)) \<le> max (sint max_k + 1) 1"
    if "MVCCScan fuel pb store start end_k ts max_k t cons rv = Some res"
  proof (cases rv)
    case True
    with that have "scanner_scan fuel pb (mvccScanner True store end_k start ts max_k t cons) = Some res"
      by (simp add: MVCCScan_def)
    from scanner_scan_limit[OF this] show ?thesis by simp
  next
    case False
    with that have "scanner_scan fuel pb (mvccScanner False store start end_k ts max_k t cons) = Some res"
      by (simp add: MVCCScan_def)
    from scanner_scan_limit[OF this] show ?thesis by simp
  qed
  have b: "res_data (MVCCGet pb store key ts t cons) = [] \<or>
       (\<exists>k v w l. v \<noteq> [] \<and> res_data (MVCCGet pb store key ts t cons) = [(k, v)]
          \<and> DecodeKey k 0 0 = Some (key, w, l))"
    using scanner_get_rows[of "mvccScanner False store key [] ts 0 t cons" pb]
    by (simp add: MVCCGet_def)
  from a b scan_loop_stops[of s pb fuel] show ?thesis by blast
qed

theorem MVCCScan_row_limit_witness:
  "map_option res_data
       (MVCCScan 10 example_pb example_store [] [255] (example_ts 4) 1 example_no_txn True False)
     = Some [(EncodeKey [106] 2 0, [1]), (EncodeKey [107] 3 0, [3])]
   \<and> int (length [(EncodeKey [106] 2 0, [1 :: byte]), (EncodeKey [107] 3 0, [3 :: byte])])
       \<le> max (sint (1 :: 64 word) + 1) 1
   \<and> \<not> reverse example_state
   \<and> slice_compare (cur_key example_state) (end_key example_state) < 0
   \<and> length (kvs example_state) < length (kvs (snd (getAndAdvance example_pb example_state)))
   \<and> sint (max_keys example_state)
       < int (length (kvs (snd (getAndAdvance example_pb example_state))))
   \<and> scan_loop (Suc 10) example_pb example_state
       = Some (snd (getAndAdvance example_pb example_state))
   \<and> res_data (MVCCGet example_pb example_store [107] (example_ts 4) example_no_txn True)
     = [(EncodeKey [107] 3 0, [3])]
   \<and> DecodeKey (EncodeKey [107] 3 0) 0 0 = Some ([107], 3, 0)"
proof -
  have e: "map_option res_data
       (MVCCScan 10 example_pb example_store [] [255] (example_ts 4) 1 example_no_txn True False)
     = Some [(EncodeKey [106] 2 0, [1]), (EncodeKey [107] 3 0, [3])]"
    by code_simp
  then obtain res where
    r: "MVCCScan 10 example_pb example_store [] [255] (example_ts 4) 1 example_no_txn True False
          = Some res"
    and d: "res_data res = [(EncodeKey [106] 2 0, [1]), (EncodeKey [107] 3 0, [3])]"
    by auto
  have g: "res_data (MVCCGet example_pb example_store [107] (example_ts 4) example_no_txn True)
     = [(EncodeKey [107] 3 0, [3])]"
    by code_simp
  have k: "DecodeKey (EncodeKey [107] 3 0) 0 0 = Some ([107], 3, 0)"
    by code_simp
  have h1: "\<not> reverse example_state"
    by code_simp
  have h2: "slice_compare (cur_key example_state) (end_key example_state) < 0"
    by code_simp
  have h3: "length (kvs example_state) < length (kvs (snd (getAndAdvance example_pb example_state)))"
    by code_simp
  have h4: "sint (max_keys example_state)
       < int (length (kvs (snd (getAndAdvance example_pb example_state))))"
    by code_simp
  show ?thesis
    using MVCCScan_row_limit[of 10 example_pb example_store "[]" "[255]" "example_ts 4" 1
        example_no_txn True False res example_state "[107]"] e r d g k h1 h2 h3 h4
    by simp
qed

text \<open>
  With the limit \<open>- 1\<close> the scan returns one row, which is more than
  \<open>max_keys + 1 = 0\<close>.
\<close>

theorem MVCCScan_negative_limit_counterexample:
  "map_option res_data
     (MVCCScan 10 example_pb example_store [] [255] (example_ts 9) (- 1) example_no_txn True False)
     = Some [(EncodeKey [106] 2 0, [1])]
   \<and> \<not> int (length [(EncodeKey [106] 2 0, [1 :: byte])]) \<le> sint (- 1 :: 64 word) + 1"
  by code_simp

subsection \<open>Deleted versions\<close>



section \<open>Scanning a well-formed store\<close>

lemma slice_compare_neg: "slice_compare b a = - slice_compare a b"
  by (induction a b rule: slice_compare.induct) auto

lemma slice_compare_trans:
  "slice_compare a b < 0 \<Longrightarrow> slice_compare b c < 0 \<Longrightarrow> slice_compare a c < 0"
  unfolding slice_compare_lexord
  by (rule lexord_trans) (auto simp add: trans_def)

lemma slice_compare_pos: "0 < slice_compare a b \<longleftrightarrow> slice_compare b a < 0"
  using slice_compare_neg[of a b] by simp

lemma ts_less_trans: "ts_less a b \<Longrightarrow> ts_less b c \<Longrightarrow> ts_less a c"
  by (auto simp add: ts_less_def word_sless_alt)

lemma ts_less_irrefl [simp]: "\<not> ts_less a a"
  by (simp add: ts_less_def word_sless_alt)

lemma sint_eq_iff: "sint a = sint b \<longleftrightarrow> a = b"
  by (auto intro: signed_word_eqI)

lemma ts_le_iff: "ts_le a b \<longleftrightarrow> ts_less a b \<or> a = b"
proof (cases a; cases b)
  fix w1 l1 w2 l2
  assume a: "a = \<lparr>wall_time = w1, logical = l1\<rparr>" and b: "b = \<lparr>wall_time = w2, logical = l2\<rparr>"
  have "ts_le a b \<longleftrightarrow> \<not> (sint w2 < sint w1 \<or> (w2 = w1 \<and> sint l2 < sint l1))"
    unfolding a b ts_le_def ts_less_def word_sless_alt by simp
  also have "\<dots> \<longleftrightarrow> sint w1 < sint w2 \<or> (w1 = w2 \<and> sint l1 < sint l2) \<or> (w1 = w2 \<and> l1 = l2)"
    unfolding sint_eq_iff[symmetric] by linarith
  also have "\<dots> \<longleftrightarrow> ts_less a b \<or> a = b"
    unfolding a b ts_less_def word_sless_alt by auto
  finally show ?thesis .
qed

lemma row_EncodeKey [simp]:
  "row_key (EncodeKey k w l, v) = k"
  "row_ts (EncodeKey k w l, v) = \<lparr>wall_time = w, logical = l\<rparr>"
  by (simp_all add: row_key_def row_ts_def DecodeKey_EncodeKey)

lemma canonical_EncodeKey:
  "0 \<le>s w \<Longrightarrow> 0 \<le>s l \<Longrightarrow> canonical_row (EncodeKey k w l, v)"
  by (simp add: canonical_row_def ts_nonneg_def)

lemma ts_zero_iff: "t = kZeroTimestamp \<longleftrightarrow> wall_time t = 0 \<and> logical t = 0"
  by (cases t) (simp add: kZeroTimestamp_def)

lemma Compare_canonical:
  assumes "canonical_row a" "canonical_row b"
  shows "Compare (fst a) (fst b) < 0 \<longleftrightarrow>
     slice_compare (row_key a) (row_key b) < 0 \<or>
     (row_key a = row_key b \<and>
        (row_ts a = kZeroTimestamp \<and> row_ts b \<noteq> kZeroTimestamp
         \<or> row_ts a \<noteq> kZeroTimestamp \<and> row_ts b \<noteq> kZeroTimestamp \<and> ts_less (row_ts b) (row_ts a)))"
proof -
  let ?wa = "wall_time (row_ts a)" and ?la = "logical (row_ts a)"
  let ?wb = "wall_time (row_ts b)" and ?lb = "logical (row_ts b)"
  have ea: "fst a = EncodeKey (row_key a) ?wa ?la" and eb: "fst b = EncodeKey (row_key b) ?wb ?lb"
    and n: "0 \<le>s ?wa" "0 \<le>s ?la" "0 \<le>s ?wb" "0 \<le>s ?lb"
    using assms by (simp_all add: canonical_row_def ts_nonneg_def)
  have t: "slice_compare (EncodeTimestamp ?wb ?lb) (EncodeTimestamp ?wa ?la) < 0 \<longleftrightarrow>
           ts_less (row_ts b) (row_ts a)"
    using n by (simp add: slice_compare_EncodeTimestamp ts_less_def sless_nonneg)
  show ?thesis
    unfolding ea eb Compare_EncodeKey Let_def
    using t by (auto simp add: slice_compare_eq_0 ts_zero_iff)
qed

lemma canonical_decodes:
  "canonical_row r \<Longrightarrow>
     DecodeKey (fst r) 0 0 = Some (row_key r, wall_time (row_ts r), logical (row_ts r))"
proof -
  assume "canonical_row r"
  then have e: "fst r = EncodeKey (row_key r) (wall_time (row_ts r)) (logical (row_ts r))"
    by (simp add: canonical_row_def)
  have "DecodeKey (EncodeKey (row_key r) (wall_time (row_ts r)) (logical (row_ts r))) 0 0
        = Some (row_key r, wall_time (row_ts r), logical (row_ts r))"
    by (simp add: DecodeKey_EncodeKey)
  with e show ?thesis by simp
qed

lemma at_row_upd [simp]:
  "at_row (s\<lparr>iters_before_seek := x\<rparr>) p = at_row s p"
  "at_row (s\<lparr>status := st\<rparr>) p = at_row s p"
  "at_row (s\<lparr>intents := y\<rparr>) p = at_row s p"
  "at_row (s\<lparr>kvs := z\<rparr>) p = at_row s p"
  by (simp_all add: at_row_def cur_index_def)

lemma updateCurrent_at:
  assumes "iter_pos s = Some q" "q < length (rows s)" "canonical_row (rows s ! q)"
    and "\<not> (reverse s \<and> peeked s)"
  shows "\<exists>s'. updateCurrent s = (True, s') \<and> same_scan s s' \<and> status s' = status s
           \<and> iters_before_seek s' = iters_before_seek s \<and> at_row s' q"
  using assms canonical_decodes[OF assms(3)]
  by (auto simp add: updateCurrent_def Let_def at_row_def cur_index_def same_scan_def)

lemma iterNext_at:
  assumes "at_row s p" "list_all canonical_row (rows s)"
  shows "if Suc p < length (rows s)
         then \<exists>s'. iterNext s = (True, s') \<and> same_scan s s' \<and> status s' = status s
                \<and> iters_before_seek s' = iters_before_seek s \<and> at_row s' (Suc p)
         else \<exists>s'. iterNext s = (False, s') \<and> same_scan s s' \<and> status s' = status s"
proof (cases "Suc p < length (rows s)")
  case True
  then have c: "canonical_row (rows s ! Suc p)" using assms(2) by (simp add: list_all_length)
  show ?thesis
  proof (cases "reverse s \<and> peeked s")
    case rp: True
    with assms(1) obtain i where i: "iter_pos s = Some i" "p = Suc i"
      by (auto simp add: at_row_def cur_index_def)
    let ?s2 = "s\<lparr>peeked := False, iter_pos := Some (Suc p)\<rparr>"
    have n: "iterNext s = updateCurrent ?s2"
      using rp i True by (simp add: iterNext_def it_next_def Let_def)
    from updateCurrent_at[of ?s2 "Suc p"] True c
    obtain s' where "updateCurrent ?s2 = (True, s')" "same_scan ?s2 s'" "status s' = status ?s2"
      "iters_before_seek s' = iters_before_seek ?s2" "at_row s' (Suc p)"
      by auto
    with n True show ?thesis by simp
  next
    case rp: False
    with assms(1) have i: "iter_pos s = Some p"
      by (auto simp add: at_row_def cur_index_def)
    let ?s2 = "s\<lparr>iter_pos := Some (Suc p)\<rparr>"
    have n: "iterNext s = updateCurrent ?s2"
      using rp i True by (auto simp add: iterNext_def it_next_def Let_def)
    from updateCurrent_at[of ?s2 "Suc p"] True c rp
    obtain s' where "updateCurrent ?s2 = (True, s')" "same_scan ?s2 s'" "status s' = status ?s2"
      "iters_before_seek s' = iters_before_seek ?s2" "at_row s' (Suc p)"
      by auto
    with n True show ?thesis by simp
  qed
next
  case False
  from assms(1) have pl: "p < length (rows s)" by (simp add: at_row_def)
  show ?thesis
  proof (cases "reverse s \<and> peeked s")
    case rp: True
    with assms(1) obtain i where i: "iter_pos s = Some i" "p = Suc i"
      by (auto simp add: at_row_def cur_index_def)
    have "iterNext s = updateCurrent (s\<lparr>peeked := False, iter_pos := None\<rparr>)"
      using rp i False pl by (simp add: iterNext_def it_next_def Let_def)
    then show ?thesis using False by (simp add: updateCurrent_def)
  next
    case rp: False
    with assms(1) have i: "iter_pos s = Some p"
      by (auto simp add: at_row_def cur_index_def)
    have "iterNext s = updateCurrent (s\<lparr>iter_pos := None\<rparr>)"
      using rp i False by (auto simp add: iterNext_def it_next_def Let_def)
    then show ?thesis using False by (simp add: updateCurrent_def)
  qed
qed

lemma iterSeek_at:
  assumes "list_all canonical_row (rows s)"
  shows "if seek_index (rows s) key < length (rows s)
         then \<exists>s'. iterSeek key s = (True, s') \<and> same_scan s s' \<and> status s' = status s
                \<and> iters_before_seek s' = iters_before_seek s
                \<and> at_row s' (seek_index (rows s) key)
         else \<exists>s'. iterSeek key s = (False, s') \<and> same_scan s s' \<and> status s' = status s"
proof (cases "seek_index (rows s) key < length (rows s)")
  case True
  let ?q = "seek_index (rows s) key"
  let ?s2 = "(clearPeeked s)\<lparr>iter_pos := Some ?q\<rparr>"
  have c: "canonical_row (rows s ! ?q)" using assms True by (simp add: list_all_length)
  have n: "iterSeek key s = updateCurrent ?s2"
    using True by (simp add: iterSeek_def it_seek_def Let_def)
  have "\<not> (reverse ?s2 \<and> peeked ?s2)" by (simp add: clearPeeked_def)
  from updateCurrent_at[of ?s2 ?q, OF _ _ _ this] True c
  obtain s' where "updateCurrent ?s2 = (True, s')" "same_scan ?s2 s'" "status s' = status ?s2"
    "iters_before_seek s' = iters_before_seek ?s2" "at_row s' ?q"
    by auto
  with n True show ?thesis by (simp add: clearPeeked_def split: if_splits)
next
  case False
  then have "iterSeek key s = updateCurrent ((clearPeeked s)\<lparr>iter_pos := None\<rparr>)"
    by (simp add: iterSeek_def it_seek_def Let_def)
  then show ?thesis using False by (simp add: updateCurrent_def clearPeeked_def)
qed

lemma wf_store_canonical: "wf_store store \<Longrightarrow> i < length store \<Longrightarrow> canonical_row (store ! i)"
  by (simp add: wf_store_def list_all_length)

lemma wf_store_sorted:
  "wf_store store \<Longrightarrow> i < j \<Longrightarrow> j < length store \<Longrightarrow> Compare (fst (store ! i)) (fst (store ! j)) < 0"
  unfolding wf_store_def using sorted_wrt_nth_less[of "\<lambda>a b. Compare (fst a) (fst b) < 0" store i j]
  by blast

text \<open>Rows at or before a row of key K that lies above d come before the seek target.\<close>

lemma before_target:
  assumes "canonical_row a" "canonical_row rp" "a = rp \<or> Compare (fst a) (fst rp) < 0"
    and "row_key rp = K" "row_ts rp = kZeroTimestamp \<or> ts_less d (row_ts rp)"
    and "d \<noteq> kZeroTimestamp" "ts_nonneg d"
  shows "Compare (fst a) (EncodeKey K (wall_time d) (logical d)) < 0"
proof -
  let ?t = "(EncodeKey K (wall_time d) (logical d), [] :: bytes)"
  have ct: "canonical_row ?t" using assms(7) by (simp add: canonical_EncodeKey ts_nonneg_def)
  have kt: "row_key ?t = K" "row_ts ?t = d" by simp_all
  have "Compare (fst a) (fst ?t) < 0"
    unfolding Compare_canonical[OF assms(1) ct] kt
    using assms(3-6) Compare_canonical[OF assms(1,2)]
    by (auto dest: ts_less_trans)
  then show ?thesis by simp
qed

lemma after_target:
  assumes "canonical_row b" "canonical_row rp" "Compare (fst rp) (fst b) < 0"
    and "row_key rp = K" "d \<noteq> kZeroTimestamp" "ts_nonneg d"
  shows "Compare (fst b) (EncodeKey K (wall_time d) (logical d)) < 0 \<longleftrightarrow>
         row_key b = K \<and> \<not> ts_le (row_ts b) d"
proof -
  let ?t = "(EncodeKey K (wall_time d) (logical d), [] :: bytes)"
  have ct: "canonical_row ?t" using assms(6) by (simp add: canonical_EncodeKey ts_nonneg_def)
  have kt: "row_key ?t = K" "row_ts ?t = d" by simp_all
  have "Compare (fst b) (fst ?t) < 0 \<longleftrightarrow> row_key b = K \<and> \<not> ts_le (row_ts b) d"
    unfolding Compare_canonical[OF assms(1) ct] kt
    using assms(3-5) Compare_canonical[OF assms(2,1)] slice_compare_neg[of K "row_key b"]
    by (auto simp add: ts_le_def)
  then show ?thesis by simp
qed

lemma seek_index_version:
  assumes "wf_store store" "p < length store" "row_key (store ! p) = K"
    and "row_ts (store ! p) = kZeroTimestamp \<or> ts_less d (row_ts (store ! p))"
    and "d \<noteq> kZeroTimestamp" "ts_nonneg d"
  shows "seek_index store (EncodeKey K (wall_time d) (logical d)) =
         Suc p + length (takeWhile (\<lambda>r. row_key r = K \<and> \<not> ts_le (row_ts r) d) (drop (Suc p) store))"
proof -
  let ?t = "EncodeKey K (wall_time d) (logical d)"
  let ?P = "\<lambda>r. Compare (fst r) ?t < 0"
  have cp: "canonical_row (store ! p)" using assms(1,2) by (rule wf_store_canonical)
  have b: "?P x" if "x \<in> set (take (Suc p) store)" for x
  proof -
    from that obtain i where i: "i < Suc p" "i < length store" "x = store ! i"
      by (auto simp add: in_set_conv_nth)
    have cx: "canonical_row x" using i assms(1) by (simp add: wf_store_canonical)
    have "x = store ! p \<or> Compare (fst x) (fst (store ! p)) < 0"
    proof (cases "i = p")
      case True
      with i show ?thesis by simp
    next
      case False
      with i have "i < p" by simp
      with wf_store_sorted[OF assms(1) this assms(2)] i show ?thesis by simp
    qed
    from before_target[OF cx cp this assms(3-6)] show ?thesis .
  qed
  have a: "?P y \<longleftrightarrow> row_key y = K \<and> \<not> ts_le (row_ts y) d" if "y \<in> set (drop (Suc p) store)" for y
  proof -
    from that obtain j0 where "j0 < length store - Suc p" "y = store ! (Suc p + j0)"
      by (auto simp add: in_set_conv_nth)
    then have "Suc p + j0 < length store \<and> y = store ! (Suc p + j0)" by simp
    then obtain j where j: "Suc p + j < length store" "y = store ! (Suc p + j)" by blast
    have cy: "canonical_row y" using j assms(1) by (simp add: wf_store_canonical)
    have "Compare (fst (store ! p)) (fst y) < 0"
      using wf_store_sorted[OF assms(1), of p "Suc p + j"] j by simp
    from after_target[OF cy cp this assms(3,5,6)] show ?thesis .
  qed
  have "takeWhile ?P store = takeWhile ?P (take (Suc p) store @ drop (Suc p) store)" by simp
  also have "\<dots> = take (Suc p) store @ takeWhile ?P (drop (Suc p) store)"
    using b by (simp only: takeWhile_append2)
  also have "takeWhile ?P (drop (Suc p) store) =
             takeWhile (\<lambda>r. row_key r = K \<and> \<not> ts_le (row_ts r) d) (drop (Suc p) store)"
    using a by (intro takeWhile_cong) simp_all
  finally show ?thesis using assms(2) by (simp add: seek_index_def)
qed

lemma find_takeWhile:
  "List.find L (takeWhile A ys) =
     (let n = length (takeWhile (\<lambda>r. A r \<and> \<not> L r) ys)
      in if n < length ys \<and> A (ys ! n) then Some (ys ! n) else None)"
  by (induction ys) (auto simp add: Let_def)

lemma takeWhile_stops:
  "length (takeWhile P ys) < length ys \<Longrightarrow> \<not> P (ys ! length (takeWhile P ys))"
  using nth_length_takeWhile by blast

lemma same_scan_rows: "same_scan s s' \<Longrightarrow> rows s' = rows s"
  by (simp add: same_scan_def)

lemma seekVersion_loop_finds:
  assumes "wf_store (rows s)" and "at_row s p" and "row_key (rows s ! p) = K"
    and "row_ts (rows s ! p) = kZeroTimestamp \<or> ts_less d (row_ts (rows s ! p))"
    and "d \<noteq> kZeroTimestamp" and "ts_nonneg d"
  shows "case List.find (\<lambda>r. ts_le (row_ts r) d)
                (takeWhile (\<lambda>r. row_key r = K) (drop (Suc p) (rows s))) of
           Some r \<Rightarrow> \<exists>s1 q. seekVersion_loop n K d chk s = found_version chk s1 \<and> same_scan s s1
                        \<and> status s1 = status s \<and> at_row s1 q \<and> rows s ! q = r
         | None \<Rightarrow> same_scan s (snd (seekVersion_loop n K d chk s))"
  using assms
proof (induction n arbitrary: s p)
  case 0
  let ?ys = "drop (Suc p) (rows s)"
  let ?m = "length (takeWhile (\<lambda>r. row_key r = K \<and> \<not> ts_le (row_ts r) d) ?ys)"
  let ?t = "EncodeKey K (wall_time d) (logical d)"
  let ?s0 = "s\<lparr>iters_before_seek := max 1 (iters_before_seek s - 1)\<rparr>"
  have pl: "p < length (rows s)" using "0.prems"(2) by (simp add: at_row_def)
  have ca: "list_all canonical_row (rows ?s0)" using "0.prems"(1) by (simp add: wf_store_def)
  have q: "seek_index (rows s) ?t = Suc p + ?m"
    using seek_index_version[OF "0.prems"(1) pl "0.prems"(3-6)] .
  have f: "List.find (\<lambda>r. ts_le (row_ts r) d) (takeWhile (\<lambda>r. row_key r = K) ?ys) =
           (if ?m < length ?ys \<and> row_key (?ys ! ?m) = K then Some (?ys ! ?m) else None)"
    by (simp add: find_takeWhile Let_def)
  show ?case
  proof (cases "?m < length ?ys")
    case False
    then have "\<not> seek_index (rows ?s0) ?t < length (rows ?s0)" using q by simp
    with iterSeek_at[OF ca, of ?t] obtain s1 where
      "iterSeek ?t ?s0 = (False, s1)" "same_scan ?s0 s1" by auto
    then show ?thesis using False f by simp
  next
    case True
    then have ql: "seek_index (rows ?s0) ?t < length (rows ?s0)" using q by simp
    have yq: "?ys ! ?m = rows s ! (Suc p + ?m)" using True by simp
    from iterSeek_at[OF ca, of ?t] ql obtain s1 where
      i: "iterSeek ?t ?s0 = (True, s1)" and ss: "same_scan ?s0 s1" and st: "status s1 = status ?s0"
      and ar: "at_row s1 (seek_index (rows ?s0) ?t)"
      by auto
    have r1: "rows s1 = rows s" using ss by (simp add: same_scan_def)
    from ar q r1 have ar': "at_row s1 (Suc p + ?m)" by simp
    then have ck: "cur_key s1 = row_key (rows s ! (Suc p + ?m))"
      and ct: "cur_timestamp s1 = row_ts (rows s ! (Suc p + ?m))"
      using r1 by (simp_all add: at_row_def)
    show ?thesis
    proof (cases "row_key (?ys ! ?m) = K")
      case k: False
      with i ck yq f True ss show ?thesis by simp
    next
      case k: True
      from takeWhile_stops[OF True] k have le: "ts_le (row_ts (?ys ! ?m)) d" by simp
      with i ck ct yq k have "seekVersion_loop 0 K d chk s = found_version chk s1"
        by (simp add: ts_ge_def)
      moreover have "same_scan s s1" using ss by simp
      moreover have "status s1 = status s" using st by simp
      ultimately show ?thesis using f True k ar' yq by auto
    qed
  qed
next
  case (Suc n)
  have ca: "list_all canonical_row (rows s)" using Suc.prems(1) by (simp add: wf_store_def)
  show ?case
  proof (cases "Suc p < length (rows s)")
    case False
    with iterNext_at[OF Suc.prems(2) ca] obtain s1 where
      "iterNext s = (False, s1)" "same_scan s s1" by auto
    then show ?thesis using False by simp
  next
    case True
    with iterNext_at[OF Suc.prems(2) ca] obtain s1 where
      i: "iterNext s = (True, s1)" and ss: "same_scan s s1" and st: "status s1 = status s"
      and ar: "at_row s1 (Suc p)"
      by auto
    have r1: "rows s1 = rows s" using ss by (simp add: same_scan_def)
    let ?r = "rows s ! Suc p"
    have dr: "drop (Suc p) (rows s) = ?r # drop (Suc (Suc p)) (rows s)"
      using True by (simp add: Cons_nth_drop_Suc)
    from ar r1 have ck: "cur_key s1 = row_key ?r" and ct: "cur_timestamp s1 = row_ts ?r"
      by (simp_all add: at_row_def)
    let ?s2 = "s1\<lparr>iters_before_seek := min kMaxItersBeforeSeek (iters_before_seek s1 + 1)\<rparr>"
    show ?thesis
    proof (cases "row_key ?r = K")
      case k: False
      with i ck dr ss show ?thesis by simp
    next
      case k: True
      show ?thesis
      proof (cases "ts_le (row_ts ?r) d")
        case le: True
        with i ck ct k have sv: "seekVersion_loop (Suc n) K d chk s = found_version chk ?s2"
          by (simp add: ts_ge_def)
        have "\<exists>s1 q. seekVersion_loop (Suc n) K d chk s = found_version chk s1 \<and> same_scan s s1
                \<and> status s1 = status s \<and> at_row s1 q \<and> rows s ! q = ?r"
          using sv ss st ar by (intro exI[of _ ?s2] exI[of _ "Suc p"]) simp
        then show ?thesis using dr k le by simp
      next
        case le: False
        with i ck ct k have e: "seekVersion_loop (Suc n) K d chk s = seekVersion_loop n K d chk s1"
          by (simp add: ts_ge_def)
        have ab: "row_ts (rows s1 ! Suc p) = kZeroTimestamp \<or> ts_less d (row_ts (rows s1 ! Suc p))"
          using le r1 by (simp add: ts_le_def)
        have ih: "case List.find (\<lambda>r. ts_le (row_ts r) d)
                (takeWhile (\<lambda>r. row_key r = K) (drop (Suc (Suc p)) (rows s1))) of
           Some r \<Rightarrow> \<exists>s2 q. seekVersion_loop n K d chk s1 = found_version chk s2 \<and> same_scan s1 s2
                        \<and> status s2 = status s1 \<and> at_row s2 q \<and> rows s1 ! q = r
         | None \<Rightarrow> same_scan s1 (snd (seekVersion_loop n K d chk s1))"
          using Suc.prems(1,5,6) r1 ar k ab by (intro Suc.IH) simp_all
        have fd: "List.find (\<lambda>r. ts_le (row_ts r) d)
                (takeWhile (\<lambda>r. row_key r = K) (drop (Suc p) (rows s))) =
              List.find (\<lambda>r. ts_le (row_ts r) d)
                (takeWhile (\<lambda>r. row_key r = K) (drop (Suc (Suc p)) (rows s1)))"
          using dr k le r1 by simp
        show ?thesis
          unfolding fd e using ih ss st r1
          by (auto simp add: same_scan_def split: option.splits)
      qed
    qed
  qed
qed


lemma fwd_upd [simp]:
  "fwd (s\<lparr>iters_before_seek := x\<rparr>) = fwd s"
  "fwd (s\<lparr>iter_pos := i\<rparr>) = fwd s"
  "fwd (s\<lparr>kvs := z\<rparr>) = fwd s"
  "fwd (s\<lparr>intents := y\<rparr>) = fwd s"
  by (simp_all add: fwd_def)
















lemma slice_compare_succ: "slice_compare a (K @ [0]) < 0 \<longleftrightarrow> slice_compare a K \<le> 0"
proof (induction a K rule: slice_compare.induct)
  case (3 x xs)
  then show ?case by (cases xs) (auto simp add: word_less_nat_alt)
qed auto

lemma Compare_key_mono:
  "canonical_row a \<Longrightarrow> canonical_row b \<Longrightarrow> Compare (fst a) (fst b) < 0 \<Longrightarrow>
     slice_compare (row_key a) (row_key b) \<le> 0"
  by (auto simp add: Compare_canonical)

lemma seek_index_next_key:
  assumes "wf_store store" "p < length store" "row_key (store ! p) = K"
  shows "seek_index store (K @ [0, 0]) =
         Suc p + length (takeWhile (\<lambda>r. row_key r = K) (drop (Suc p) store))"
proof -
  let ?t = "(EncodeKey (K @ [0]) 0 0, [] :: bytes)"
  have tk: "EncodeKey (K @ [0]) 0 0 = K @ [0, 0]" by (simp add: EncodeKey_meta)
  have ct: "canonical_row ?t" by (simp add: canonical_EncodeKey)
  let ?P = "\<lambda>r. Compare (fst r) (K @ [0, 0]) < 0"
  have P: "?P r \<longleftrightarrow> slice_compare (row_key r) K \<le> 0" if "canonical_row r" for r
  proof -
    have "Compare (fst r) (EncodeKey (K @ [0]) 0 0) < 0 \<longleftrightarrow> slice_compare (row_key r) K \<le> 0"
      using Compare_canonical[OF that ct] by (simp add: slice_compare_succ kZeroTimestamp_def)
    then show ?thesis by (simp only: tk)
  qed
  have cp: "canonical_row (store ! p)" using assms(1,2) by (rule wf_store_canonical)
  have b: "?P x" if "x \<in> set (take (Suc p) store)" for x
  proof -
    from that obtain i where i: "i < Suc p" "i < length store" "x = store ! i"
      by (auto simp add: in_set_conv_nth)
    have cx: "canonical_row x" using i assms(1) by (simp add: wf_store_canonical)
    have "slice_compare (row_key x) K \<le> 0"
    proof (cases "i = p")
      case True
      with i assms(3) show ?thesis by simp
    next
      case False
      with i have "i < p" by simp
      from wf_store_sorted[OF assms(1) this assms(2)] i cx cp assms(3)
      show ?thesis using Compare_key_mono by blast
    qed
    with P[OF cx] show ?thesis by simp
  qed
  have a: "?P y \<longleftrightarrow> row_key y = K" if "y \<in> set (drop (Suc p) store)" for y
  proof -
    from that obtain j0 where "j0 < length store - Suc p" "y = store ! (Suc p + j0)"
      by (auto simp add: in_set_conv_nth)
    then have "Suc p + j0 < length store \<and> y = store ! (Suc p + j0)" by simp
    then obtain j where j: "Suc p + j < length store" "y = store ! (Suc p + j)" by blast
    have cy: "canonical_row y" using j assms(1) by (simp add: wf_store_canonical)
    have "Compare (fst (store ! p)) (fst y) < 0"
      using wf_store_sorted[OF assms(1), of p "Suc p + j"] j by simp
    from Compare_key_mono[OF cp cy this] assms(3) have "slice_compare K (row_key y) \<le> 0" by simp
    then have "slice_compare (row_key y) K \<le> 0 \<longleftrightarrow> row_key y = K"
      using slice_compare_neg[of K "row_key y"] slice_compare_eq_0[of "row_key y" K] by auto
    with P[OF cy] show ?thesis by simp
  qed
  have "takeWhile ?P store = takeWhile ?P (take (Suc p) store @ drop (Suc p) store)" by simp
  also have "\<dots> = take (Suc p) store @ takeWhile ?P (drop (Suc p) store)"
    using b by (simp only: takeWhile_append2)
  also have "takeWhile ?P (drop (Suc p) store) =
             takeWhile (\<lambda>r. row_key r = K) (drop (Suc p) store)"
    using a by (intro takeWhile_cong) simp_all
  finally show ?thesis using assms(2) by (simp add: seek_index_def)
qed

lemma nextKey_loop_at:
  assumes "wf_store (rows s)" "at_row s p" "row_key (rows s ! p) = K"
  shows "if Suc p + length (takeWhile (\<lambda>r. row_key r = K) (drop (Suc p) (rows s))) < length (rows s)
         then \<exists>s'. nextKey_loop n K s = (True, s') \<and> same_scan s s' \<and> status s' = status s
                \<and> at_row s' (Suc p + length (takeWhile (\<lambda>r. row_key r = K) (drop (Suc p) (rows s))))
         else \<exists>s'. nextKey_loop n K s = (False, s') \<and> same_scan s s' \<and> status s' = status s"
  using assms
proof (induction n arbitrary: s p)
  case 0
  let ?s0 = "s\<lparr>iters_before_seek := max 1 (iters_before_seek s - 1)\<rparr>"
  have pl: "p < length (rows s)" using "0.prems"(2) by (simp add: at_row_def)
  have ca: "list_all canonical_row (rows ?s0)" using "0.prems"(1) by (simp add: wf_store_def)
  note q = seek_index_next_key[OF "0.prems"(1) pl "0.prems"(3)]
  show ?case using iterSeek_at[OF ca, of "K @ [0, 0]"] q by auto
next
  case (Suc n)
  have ca: "list_all canonical_row (rows s)" using Suc.prems(1) by (simp add: wf_store_def)
  show ?case
  proof (cases "Suc p < length (rows s)")
    case False
    with iterNext_at[OF Suc.prems(2) ca] show ?thesis by auto
  next
    case True
    with iterNext_at[OF Suc.prems(2) ca] obtain s1 where
      i: "iterNext s = (True, s1)" and ss: "same_scan s s1" and st: "status s1 = status s"
      and ar: "at_row s1 (Suc p)"
      by auto
    have r1: "rows s1 = rows s" using ss by (simp add: same_scan_def)
    let ?r = "rows s ! Suc p"
    have dr: "drop (Suc p) (rows s) = ?r # drop (Suc (Suc p)) (rows s)"
      using True by (simp add: Cons_nth_drop_Suc)
    from ar r1 have ck: "cur_key s1 = row_key ?r" by (simp add: at_row_def)
    show ?thesis
    proof (cases "row_key ?r = K")
      case k: False
      let ?s2 = "s1\<lparr>iters_before_seek := max kMaxItersBeforeSeek (iters_before_seek s1 + 1)\<rparr>"
      have "nextKey_loop (Suc n) K s = (True, ?s2)" using i ck k by simp
      moreover have "same_scan s ?s2" "status ?s2 = status s" "at_row ?s2 (Suc p)"
        using ss st ar by simp_all
      ultimately show ?thesis using dr k True by simp
    next
      case k: True
      have e: "nextKey_loop (Suc n) K s = nextKey_loop n K s1" using i ck k by simp
      have ih: "if Suc (Suc p) + length (takeWhile (\<lambda>r. row_key r = K) (drop (Suc (Suc p)) (rows s1))) < length (rows s1)
         then \<exists>s'. nextKey_loop n K s1 = (True, s') \<and> same_scan s1 s' \<and> status s' = status s1
                \<and> at_row s' (Suc (Suc p) + length (takeWhile (\<lambda>r. row_key r = K) (drop (Suc (Suc p)) (rows s1))))
         else \<exists>s'. nextKey_loop n K s1 = (False, s') \<and> same_scan s1 s' \<and> status s' = status s1"
        using Suc.prems(1) r1 ar k by (intro Suc.IH) simp_all
      show ?thesis
        unfolding e using ih ss st r1 dr k
        by (auto simp add: same_scan_def split: if_splits)
    qed
  qed
qed

lemma end_key_shortcut:
  "(length k + 1 = length e \<and> take (length k) e = k \<and> e ! length k = (0 :: byte)) \<longleftrightarrow> e = k @ [0]"
proof
  assume a: "length k + 1 = length e \<and> take (length k) e = k \<and> e ! length k = 0"
  have "e = take (length k) e @ drop (length k) e" by simp
  moreover from a have "drop (length k) e = [e ! length k]"
    by (metis Cons_nth_drop_Suc Suc_eq_plus1 drop_all lessI order_refl)
  ultimately show "e = k @ [0]" using a by metis
next
  assume "e = k @ [0]"
  then show "length k + 1 = length e \<and> take (length k) e = k \<and> e ! length k = 0" by simp
qed

lemma nextKey_at:
  assumes "wf_store (rows s)" "at_row s p"
  shows "if key_end (rows s) p < length (rows s) \<and> end_key s \<noteq> cur_key s @ [0]
         then \<exists>s'. nextKey s = (True, s') \<and> same_scan s s' \<and> status s' = status s
                \<and> at_row s' (key_end (rows s) p)
         else \<exists>s'. nextKey s = (False, s') \<and> same_scan s s' \<and> status s' = status s"
proof (cases "end_key s = cur_key s @ [0]")
  case True
  then show ?thesis unfolding nextKey_def end_key_shortcut by simp
next
  case False
  have k: "row_key (rows s ! p) = cur_key s" using assms(2) by (simp add: at_row_def)
  from False have "nextKey s = nextKey_loop (nat (iters_before_seek s)) (cur_key s) s"
    unfolding nextKey_def end_key_shortcut by simp
  with nextKey_loop_at[OF assms k, of "nat (iters_before_seek s)"] False k
  show ?thesis by (auto simp add: key_end_def)
qed

lemma key_versions_Cons:
  "p < length store \<Longrightarrow>
     key_versions store p =
       store ! p # takeWhile (\<lambda>r. row_key r = row_key (store ! p)) (drop (Suc p) store)"
  by (simp add: key_versions_def Cons_nth_drop_Suc[symmetric])

lemma ts_le_less_trans: "ts_le a b \<Longrightarrow> ts_less b c \<Longrightarrow> ts_less a c"
  using ts_le_iff ts_less_trans by blast

lemma ts_less_le_trans: "ts_less a b \<Longrightarrow> ts_le b c \<Longrightarrow> ts_less a c"
  using ts_le_iff ts_less_trans by blast

lemma ts_less_imp_le: "ts_less a b \<Longrightarrow> ts_le a b"
  by (simp add: ts_le_iff)

lemma ts_less_zero: "ts_nonneg t \<Longrightarrow> \<not> ts_less t kZeroTimestamp"
  by (auto simp add: ts_nonneg_def ts_less_def kZeroTimestamp_def word_sless_alt word_sle_eq)

lemma at_row_fields:
  "at_row s p \<Longrightarrow> p < length (rows s) \<and> cur_raw_key s = fst (rows s ! p)
     \<and> cur_value s = snd (rows s ! p) \<and> cur_key s = row_key (rows s ! p)
     \<and> cur_timestamp s = row_ts (rows s ! p)"
  by (simp add: at_row_def)

lemma same_scan_fields:
  "same_scan s s' \<Longrightarrow> rows s' = rows s \<and> kvs s' = kvs s \<and> intents s' = intents s
     \<and> aborted s' = aborted s \<and> uncertainty_timestamp s' = uncertainty_timestamp s
     \<and> scan_timestamp s' = scan_timestamp s \<and> max_keys s' = max_keys s \<and> reverse s' = reverse s"
  by (simp add: same_scan_def)

text \<open>A version row in the uncertainty interval.\<close>

lemma getAndAdvance_uncertain:
  assumes wf: "wf_store (rows s)" and at: "at_row s p"
    and v: "cur_timestamp s \<noteq> kZeroTimestamp"
    and cu: "check_uncertainty s"
    and tm: "ts_less (scan_timestamp s) (txn_max_timestamp s)"
    and nn: "ts_nonneg (scan_timestamp s)" "ts_nonneg (txn_max_timestamp s)"
    and f: "newest_le (txn_max_timestamp s) (key_versions (rows s) p) = Some r"
    and u: "ts_less (scan_timestamp s) (row_ts r)"
  shows "\<exists>s'. getAndAdvance pb s = (False, s') \<and> uncertainty_timestamp s' = row_ts r
           \<and> kvs s' = [] \<and> intents s' = [] \<and> status s' = status s \<and> aborted s' = aborted s"
proof -
  let ?T = "scan_timestamp s" and ?M = "txn_max_timestamp s"
  let ?K = "row_key (rows s ! p)"
  let ?rest = "takeWhile (\<lambda>r. row_key r = ?K) (drop (Suc p) (rows s))"
  note af = at_row_fields[OF at]
  have kv: "key_versions (rows s) p = rows s ! p # ?rest" using af by (simp add: key_versions_Cons)
  have ct: "cur_timestamp s = row_ts (rows s ! p)" using af by simp
  have M0: "?M \<noteq> kZeroTimestamp" using tm ts_less_zero[OF nn(1)] by auto
  have nle: "\<not> ts_le (cur_timestamp s) ?T"
  proof
    assume le: "ts_le (cur_timestamp s) ?T"
    then have "ts_le (row_ts (rows s ! p)) ?M" using tm ct ts_le_less_trans ts_less_imp_le by metis
    with f kv have "r = rows s ! p" by (simp add: newest_le_def)
    with u ct le show False by (simp add: ts_le_def)
  qed
  show ?thesis
  proof (cases "ts_le (cur_timestamp s) ?M")
    case True
    with f kv ct have r: "r = rows s ! p" by (simp add: newest_le_def)
    have "getAndAdvance pb s = uncertaintyError (cur_timestamp s) s"
      using v nle cu True by (simp add: getAndAdvance_def ts_ge_def)
    then show ?thesis using r ct by (simp add: uncertaintyError_def)
  next
    case False
    then have ab: "row_ts (rows s ! p) = kZeroTimestamp \<or> ts_less ?M (row_ts (rows s ! p))"
      using ct by (simp add: ts_le_def)
    have g: "getAndAdvance pb s = seekVersion_loop (nat (iters_before_seek s)) ?K ?M True s"
      using v nle cu False af by (simp add: getAndAdvance_def ts_ge_def seekVersion_def)
    from f kv False ct have fr: "List.find (\<lambda>r. ts_le (row_ts r) ?M) ?rest = Some r"
      by (simp add: newest_le_def)
    from seekVersion_loop_finds[OF wf at refl ab M0 nn(2), of "nat (iters_before_seek s)" True] fr
    obtain s1 q where sv: "seekVersion_loop (nat (iters_before_seek s)) ?K ?M True s = found_version True s1"
      and ss: "same_scan s s1" and st: "status s1 = status s" and a1: "at_row s1 q"
      and rq: "rows s ! q = r"
      by auto
    note sf = same_scan_fields[OF ss]
    have c1: "cur_timestamp s1 = row_ts r" using at_row_fields[OF a1] sf rq by simp
    have "found_version True s1 = uncertaintyError (row_ts r) s1"
      using c1 u sf by (simp add: found_version_def)
    with g sv show ?thesis using st sf by (simp add: uncertaintyError_def)
  qed
qed












lemma key_versions_nth:
  assumes "i < length (key_versions store p)"
  shows "key_versions store p ! i = store ! (p + i) \<and> p + i < length store
         \<and> row_key (store ! (p + i)) = row_key (store ! p)"
proof -
  let ?A = "\<lambda>r. row_key r = row_key (store ! p)"
  have l: "length (key_versions store p) \<le> length (drop p store)"
    unfolding key_versions_def by (rule length_takeWhile_le)
  with assms have b: "p + i < length store" by simp
  have n: "key_versions store p ! i = drop p store ! i"
    using assms unfolding key_versions_def by (simp add: takeWhile_nth)
  have "key_versions store p ! i \<in> set (takeWhile ?A (drop p store))"
    using assms unfolding key_versions_def by simp
  then have "?A (key_versions store p ! i)" by (rule set_takeWhileD[THEN conjunct2])
  with n b show ?thesis by simp
qed

lemma version_after_version:
  assumes "wf_store store" "i < j" "j < length store" "row_key (store ! j) = row_key (store ! i)"
  shows "row_ts (store ! j) \<noteq> kZeroTimestamp
         \<and> (row_ts (store ! i) \<noteq> kZeroTimestamp \<longrightarrow> ts_less (row_ts (store ! j)) (row_ts (store ! i)))"
proof -
  have ci: "canonical_row (store ! i)" and cj: "canonical_row (store ! j)"
    using assms(1-3) by (simp_all add: wf_store_canonical)
  from wf_store_sorted[OF assms(1-3)] Compare_canonical[OF ci cj] assms(4)
  show ?thesis by auto
qed

lemma newest_in_interval:
  assumes wf: "wf_store store" and v: "row_ts (store ! p) \<noteq> kZeroTimestamp"
    and r0: "r0 \<in> set (key_versions store p)" "ts_less T (row_ts r0)" "ts_le (row_ts r0) M"
  shows "\<exists>r. newest_le M (key_versions store p) = Some r \<and> ts_less T (row_ts r)
           \<and> ts_le (row_ts r) M \<and> ts_le (row_ts r0) (row_ts r)"
proof -
  let ?vs = "key_versions store p"
  let ?P = "\<lambda>r. ts_le (row_ts r) M"
  from r0(1) obtain j where j: "j < length ?vs" "r0 = ?vs ! j" by (auto simp add: in_set_conv_nth)
  have "\<exists>x. x \<in> set ?vs \<and> ?P x" using r0(1,3) by blast
  then have "List.find ?P ?vs \<noteq> None" by (simp only: find_None_iff) blast
  then obtain r where f: "List.find ?P ?vs = Some r" by auto
  then obtain i where i: "i < length ?vs" "?P (?vs ! i)" "r = ?vs ! i" "\<forall>k<i. \<not> ?P (?vs ! k)"
    by (auto simp add: find_Some_iff)
  have ij: "i \<le> j" using i(4) j r0(3) by (meson not_le_imp_less)
  note ni = key_versions_nth[OF i(1)] and nj = key_versions_nth[OF j(1)]
  have le: "ts_le (row_ts r0) (row_ts r) \<and> ts_less T (row_ts r)"
  proof (cases "i = j")
    case True
    with i j r0 show ?thesis by (simp add: ts_le_iff)
  next
    case False
    with ij have lt: "p + i < p + j" by simp
    have k: "row_key (store ! (p + j)) = row_key (store ! (p + i))" using ni nj by simp
    have vi: "row_ts (store ! (p + i)) \<noteq> kZeroTimestamp"
    proof (cases "i = 0")
      case True
      with v show ?thesis by simp
    next
      case False
      then have "p < p + i" by simp
      from version_after_version[OF wf this] ni show ?thesis by simp
    qed
    from version_after_version[OF wf lt] nj k vi
    have "ts_less (row_ts (store ! (p + j))) (row_ts (store ! (p + i)))" by simp
    then have "ts_less (row_ts r0) (row_ts r)" using i(3) j(2) ni nj by simp
    with r0(2) show ?thesis using ts_less_trans ts_less_imp_le by blast
  qed
  with f i(2,3) show ?thesis by (simp add: newest_le_def)
qed

lemma mvccScanner_simps [simp]:
  "rows (mvccScanner rv store start end_k ts max_k t cons) = store"
  "end_key (mvccScanner rv store start end_k ts max_k t cons) = end_k"
  "scan_timestamp (mvccScanner rv store start end_k ts max_k t cons) = ts"
  "scan_txn_id (mvccScanner rv store start end_k ts max_k t cons) = dbtxn_id t"
  "txn_epoch (mvccScanner rv store start end_k ts max_k t cons) = dbtxn_epoch t"
  "txn_max_timestamp (mvccScanner rv store start end_k ts max_k t cons) = dbtxn_max_timestamp t"
  "consistent (mvccScanner rv store start end_k ts max_k t cons) = cons"
  "check_uncertainty (mvccScanner rv store start end_k ts max_k t cons)
     = ts_less ts (dbtxn_max_timestamp t)"
  "status (mvccScanner rv store start end_k ts max_k t cons) = None"
  "uncertainty_timestamp (mvccScanner rv store start end_k ts max_k t cons) = kZeroTimestamp"
  "intents (mvccScanner rv store start end_k ts max_k t cons) = []"
  "aborted (mvccScanner rv store start end_k ts max_k t cons) = False"
  by (simp_all add: mvccScanner_def kSuccess_def)

text \<open>The first seek of a get or a forward scan that starts at a key of the store.\<close>

lemma first_seek:
  assumes "wf_store (rows s0)" "first_row (rows s0) (start_key s0) < length (rows s0)"
  shows "\<exists>s1. iterSeek (EncodeKey (start_key s0) 0 0) s0 = (True, s1) \<and> same_scan s0 s1
           \<and> status s1 = status s0 \<and> at_row s1 (first_row (rows s0) (start_key s0))"
proof -
  have ca: "list_all canonical_row (rows s0)" using assms(1) by (simp add: wf_store_def)
  from iterSeek_at[OF ca, of "EncodeKey (start_key s0) 0 0"] assms(2)
  show ?thesis by (auto simp add: first_row_def)
qed

lemma scanner_get_first:
  assumes "wf_store (rows s0)" "first_row (rows s0) (start_key s0) < length (rows s0)"
    and "row_key (rows s0 ! first_row (rows s0) (start_key s0)) = start_key s0"
  shows "\<exists>s1. scanner_get pb s0 = fillResults (snd (getAndAdvance pb s1)) \<and> same_scan s0 s1
           \<and> status s1 = status s0 \<and> at_row s1 (first_row (rows s0) (start_key s0))"
proof -
  from first_seek[OF assms(1,2)] obtain s1 where
    i: "iterSeek (EncodeKey (start_key s0) 0 0) s0 = (True, s1)" and ss: "same_scan s0 s1"
    and st: "status s1 = status s0" and ar: "at_row s1 (first_row (rows s0) (start_key s0))"
    by blast
  have "cur_key s1 = start_key s1"
    using at_row_fields[OF ar] ss assms(3) by (simp add: same_scan_def)
  with i have "scanner_get pb s0 = fillResults (snd (getAndAdvance pb s1))"
    by (simp add: scanner_get_def)
  with ss st ar show ?thesis by blast
qed

lemma scanner_scan_first:
  assumes "wf_store (rows s0)" "first_row (rows s0) (start_key s0) < length (rows s0)"
    and "row_key (rows s0 ! first_row (rows s0) (start_key s0)) = start_key s0"
    and "\<not> reverse s0" "slice_compare (start_key s0) (end_key s0) < 0"
  shows "\<exists>s1. same_scan s0 s1 \<and> status s1 = status s0
           \<and> at_row s1 (first_row (rows s0) (start_key s0))
           \<and> (\<not> fst (getAndAdvance pb s1) \<longrightarrow>
                scanner_scan (Suc fuel) pb s0 = Some (fillResults (snd (getAndAdvance pb s1))))"
proof -
  from first_seek[OF assms(1,2)] obtain s1 where
    i: "iterSeek (EncodeKey (start_key s0) 0 0) s0 = (True, s1)" and ss: "same_scan s0 s1"
    and st: "status s1 = status s0" and ar: "at_row s1 (first_row (rows s0) (start_key s0))"
    by blast
  have ck: "cur_key s1 = start_key s0"
    using at_row_fields[OF ar] ss assms(3) by (simp add: same_scan_def)
  have re: "\<not> reverse s1" "end_key s1 = end_key s0" using ss assms(4) by (simp_all add: same_scan_def)
  have "scanner_scan (Suc fuel) pb s0 = Some (fillResults (snd (getAndAdvance pb s1)))"
    if "\<not> fst (getAndAdvance pb s1)"
  proof -
    obtain b s2 where g: "getAndAdvance pb s1 = (b, s2)" by force
    with that have "\<not> b" by simp
    with g i ck re assms(4,5) show ?thesis by (simp add: scanner_scan_def)
  qed
  with ss st ar show ?thesis by blast
qed

lemma fillResults_ok:
  "status s = None \<Longrightarrow>
     fillResults s = \<lparr>res_status = None, res_data = kvs s, res_intents = intents s,
       res_uncertainty_timestamp = uncertainty_timestamp s, res_aborted = aborted s\<rparr>"
  by (simp add: fillResults_def rawResults_def)




text \<open>The step, the get and the forward scan for a version in the uncertainty interval.\<close>

lemma uncertain_step:
  assumes wf: "wf_store (rows s)" and at: "at_row s p"
    and v: "cur_timestamp s \<noteq> kZeroTimestamp"
    and cu: "check_uncertainty s"
    and nn: "ts_nonneg (scan_timestamp s)" "ts_nonneg (txn_max_timestamp s)"
    and tm: "ts_less (scan_timestamp s) (txn_max_timestamp s)"
    and r0: "r0 \<in> set (key_versions (rows s) p)" "ts_less (scan_timestamp s) (row_ts r0)"
      "ts_le (row_ts r0) (txn_max_timestamp s)"
  shows "\<exists>r s'. newest_le (txn_max_timestamp s) (key_versions (rows s) p) = Some r
           \<and> ts_less (scan_timestamp s) (row_ts r) \<and> ts_le (row_ts r) (txn_max_timestamp s)
           \<and> ts_le (row_ts r0) (row_ts r)
           \<and> getAndAdvance pb s = (False, s') \<and> uncertainty_timestamp s' = row_ts r
           \<and> kvs s' = [] \<and> intents s' = [] \<and> status s' = status s \<and> aborted s' = aborted s"
proof -
  have v': "row_ts (rows s ! p) \<noteq> kZeroTimestamp" using at_row_fields[OF at] v by simp
  from newest_in_interval[OF wf v' r0] obtain r where
    r: "newest_le (txn_max_timestamp s) (key_versions (rows s) p) = Some r"
      "ts_less (scan_timestamp s) (row_ts r)" "ts_le (row_ts r) (txn_max_timestamp s)"
      "ts_le (row_ts r0) (row_ts r)"
    by blast
  from getAndAdvance_uncertain[OF wf at v cu tm nn r(1,2), of pb] r show ?thesis by blast
qed

lemma uncertain_get:
  assumes wf: "wf_store (rows s0)" and fr: "first_row (rows s0) (start_key s0) = p"
    and pl: "p < length (rows s0)" and k: "row_key (rows s0 ! p) = start_key s0"
    and v: "row_ts (rows s0 ! p) \<noteq> kZeroTimestamp"
    and cu: "check_uncertainty s0"
    and nn: "ts_nonneg (scan_timestamp s0)" "ts_nonneg (txn_max_timestamp s0)"
    and tm: "ts_less (scan_timestamp s0) (txn_max_timestamp s0)"
    and r0: "r0 \<in> set (key_versions (rows s0) p)" "ts_less (scan_timestamp s0) (row_ts r0)"
      "ts_le (row_ts r0) (txn_max_timestamp s0)"
    and st: "status s0 = None" "aborted s0 = False"
  shows "\<exists>r. newest_le (txn_max_timestamp s0) (key_versions (rows s0) p) = Some r
           \<and> ts_less (scan_timestamp s0) (row_ts r) \<and> ts_le (row_ts r) (txn_max_timestamp s0)
           \<and> ts_le (row_ts r0) (row_ts r)
           \<and> scanner_get pb s0 =
                \<lparr>res_status = None, res_data = [], res_intents = [],
                 res_uncertainty_timestamp = row_ts r, res_aborted = False\<rparr>
           \<and> (\<not> reverse s0 \<and> slice_compare (start_key s0) (end_key s0) < 0 \<longrightarrow>
                scanner_scan (Suc fuel) pb s0 =
                  Some \<lparr>res_status = None, res_data = [], res_intents = [],
                        res_uncertainty_timestamp = row_ts r, res_aborted = False\<rparr>)"
proof -
  from pl fr have pl': "first_row (rows s0) (start_key s0) < length (rows s0)" by simp
  from k fr have k': "row_key (rows s0 ! first_row (rows s0) (start_key s0)) = start_key s0" by simp
  from scanner_get_first[OF wf pl' k', of pb] fr obtain s1 where
    g: "scanner_get pb s0 = fillResults (snd (getAndAdvance pb s1))" and ss: "same_scan s0 s1"
    and s1: "status s1 = status s0" and ar: "at_row s1 p"
    by auto
  have eq: "rows s1 = rows s0" "scan_timestamp s1 = scan_timestamp s0"
    "txn_max_timestamp s1 = txn_max_timestamp s0" "check_uncertainty s1 = check_uncertainty s0"
    "aborted s1 = aborted s0"
    using ss by (simp_all add: same_scan_def)
  have ct: "cur_timestamp s1 \<noteq> kZeroTimestamp" using at_row_fields[OF ar] v eq by simp
  from uncertain_step[of s1 p r0 pb] wf ar ct cu nn tm r0 eq
  obtain r s' where
    r: "newest_le (txn_max_timestamp s0) (key_versions (rows s0) p) = Some r"
      "ts_less (scan_timestamp s0) (row_ts r)" "ts_le (row_ts r) (txn_max_timestamp s0)"
      "ts_le (row_ts r0) (row_ts r)"
    and ga: "getAndAdvance pb s1 = (False, s')" and u: "uncertainty_timestamp s' = row_ts r"
      "kvs s' = []" "intents s' = []" "status s' = status s1" "aborted s' = aborted s1"
    by auto
  have f: "fillResults s' = \<lparr>res_status = None, res_data = [], res_intents = [],
                 res_uncertainty_timestamp = row_ts r, res_aborted = False\<rparr>"
    using fillResults_ok[of s'] u s1 st eq by simp
  have a: "scanner_get pb s0 = \<lparr>res_status = None, res_data = [], res_intents = [],
                 res_uncertainty_timestamp = row_ts r, res_aborted = False\<rparr>"
    using g ga f by simp
  have b: "scanner_scan (Suc fuel) pb s0 =
                  Some \<lparr>res_status = None, res_data = [], res_intents = [],
                        res_uncertainty_timestamp = row_ts r, res_aborted = False\<rparr>"
    if c: "\<not> reverse s0 \<and> slice_compare (start_key s0) (end_key s0) < 0"
  proof -
    from first_seek[OF wf pl'] fr obtain s2 where
      i: "iterSeek (EncodeKey (start_key s0) 0 0) s0 = (True, s2)" by auto
    from first_seek[OF wf pl'] i ss ar fr
    have i1: "iterSeek (EncodeKey (start_key s0) 0 0) s0 = (True, s2)" by simp
    from scanner_scan_first[OF wf pl' k', of pb fuel] c fr obtain s3 where
      s3: "same_scan s0 s3" "status s3 = status s0" "at_row s3 p"
      "\<not> fst (getAndAdvance pb s3) \<longrightarrow>
          scanner_scan (Suc fuel) pb s0 = Some (fillResults (snd (getAndAdvance pb s3)))"
      by auto
    have eq3: "rows s3 = rows s0" "scan_timestamp s3 = scan_timestamp s0"
      "txn_max_timestamp s3 = txn_max_timestamp s0" "check_uncertainty s3 = check_uncertainty s0"
      "aborted s3 = aborted s0"
      using s3(1) by (simp_all add: same_scan_def)
    have ct3: "cur_timestamp s3 \<noteq> kZeroTimestamp" using at_row_fields[OF s3(3)] v eq3 by simp
    from uncertain_step[of s3 p r0 pb] wf s3(3) ct3 cu nn tm r0 eq3
    obtain r' s'' where
      r': "newest_le (txn_max_timestamp s0) (key_versions (rows s0) p) = Some r'"
      and ga': "getAndAdvance pb s3 = (False, s'')" and u': "uncertainty_timestamp s'' = row_ts r'"
        "kvs s'' = []" "intents s'' = []" "status s'' = status s3" "aborted s'' = aborted s3"
      by auto
    from r' r(1) have rr: "r' = r" by simp
    have "fillResults s'' = \<lparr>res_status = None, res_data = [], res_intents = [],
                 res_uncertainty_timestamp = row_ts r, res_aborted = False\<rparr>"
      using fillResults_ok[of s''] u' s3(2) st eq3 rr by simp
    with s3(4) ga' show ?thesis by simp
  qed
  from r a b show ?thesis by blast
qed



section \<open>Uncertainty and own intents\<close>

text \<open>
  Claim C3 (as amended). Let the reader's timestamp \<open>T\<close> be less than the maximal
  timestamp of its transaction (both non-negative), and let the scanner stand
  on a version row of a well-formed store, that is on a key without intent or
  inline value. If among the rows of this key from there on one has a
  timestamp in \<open>(T, max_timestamp]\<close>, then the step returns false with the
  uncertainty timestamp set to the timestamp of the newest version at or before
  \<open>max_timestamp\<close>, which lies in the interval and is not older than the given
  version, and with the rows and the intents collected so far dropped; the scan
  loop of either direction stops there. In particular \<^verbatim>\<open>MVCCGet\<close> of such a key
  and a forward \<^verbatim>\<open>MVCCScan\<close> that starts at it return nothing but this
  uncertainty timestamp.
\<close>

theorem uncertainty_at_newest_version:
  "(wf_store (rows s) \<and> at_row s p \<and> cur_timestamp s \<noteq> kZeroTimestamp \<and> check_uncertainty s
      \<and> ts_nonneg (scan_timestamp s) \<and> ts_nonneg (txn_max_timestamp s)
      \<and> ts_less (scan_timestamp s) (txn_max_timestamp s)
      \<and> r0 \<in> set (key_versions (rows s) p) \<and> ts_less (scan_timestamp s) (row_ts r0)
      \<and> ts_le (row_ts r0) (txn_max_timestamp s)
    \<longrightarrow> (\<exists>r s'. newest_le (txn_max_timestamp s) (key_versions (rows s) p) = Some r
           \<and> ts_less (scan_timestamp s) (row_ts r) \<and> ts_le (row_ts r) (txn_max_timestamp s)
           \<and> ts_le (row_ts r0) (row_ts r)
           \<and> getAndAdvance pb s = (False, s') \<and> uncertainty_timestamp s' = row_ts r
           \<and> kvs s' = [] \<and> intents s' = [] \<and> status s' = status s
           \<and> ((if reverse s then slice_compare (cur_key s) (end_key s) \<ge> 0
                else slice_compare (cur_key s) (end_key s) < 0)
                \<longrightarrow> scan_loop (Suc fuel) pb s = Some s')))
   \<and> (wf_store store \<and> first_row store K = q \<and> q < length store \<and> row_key (store ! q) = K
      \<and> row_ts (store ! q) \<noteq> kZeroTimestamp
      \<and> ts_nonneg T \<and> ts_nonneg (dbtxn_max_timestamp t) \<and> ts_less T (dbtxn_max_timestamp t)
      \<and> r1 \<in> set (key_versions store q) \<and> ts_less T (row_ts r1)
      \<and> ts_le (row_ts r1) (dbtxn_max_timestamp t)
    \<longrightarrow> (\<exists>r. newest_le (dbtxn_max_timestamp t) (key_versions store q) = Some r
           \<and> ts_less T (row_ts r) \<and> ts_le (row_ts r) (dbtxn_max_timestamp t)
           \<and> ts_le (row_ts r1) (row_ts r)
           \<and> MVCCGet pb store K T t cons =
                \<lparr>res_status = None, res_data = [], res_intents = [],
                 res_uncertainty_timestamp = row_ts r, res_aborted = False\<rparr>
           \<and> (slice_compare K end_k < 0 \<longrightarrow>
                MVCCScan (Suc fuel) pb store K end_k T max_k t cons False =
                  Some \<lparr>res_status = None, res_data = [], res_intents = [],
                        res_uncertainty_timestamp = row_ts r, res_aborted = False\<rparr>)))"
proof -
  have a: "\<exists>r s'. newest_le (txn_max_timestamp s) (key_versions (rows s) p) = Some r
           \<and> ts_less (scan_timestamp s) (row_ts r) \<and> ts_le (row_ts r) (txn_max_timestamp s)
           \<and> ts_le (row_ts r0) (row_ts r)
           \<and> getAndAdvance pb s = (False, s') \<and> uncertainty_timestamp s' = row_ts r
           \<and> kvs s' = [] \<and> intents s' = [] \<and> status s' = status s
           \<and> ((if reverse s then slice_compare (cur_key s) (end_key s) \<ge> 0
                else slice_compare (cur_key s) (end_key s) < 0)
                \<longrightarrow> scan_loop (Suc fuel) pb s = Some s')"
    if h: "wf_store (rows s) \<and> at_row s p \<and> cur_timestamp s \<noteq> kZeroTimestamp \<and> check_uncertainty s
      \<and> ts_nonneg (scan_timestamp s) \<and> ts_nonneg (txn_max_timestamp s)
      \<and> ts_less (scan_timestamp s) (txn_max_timestamp s)
      \<and> r0 \<in> set (key_versions (rows s) p) \<and> ts_less (scan_timestamp s) (row_ts r0)
      \<and> ts_le (row_ts r0) (txn_max_timestamp s)"
  proof -
    from uncertain_step[of s p r0 pb] h obtain r s' where
      r: "newest_le (txn_max_timestamp s) (key_versions (rows s) p) = Some r"
        "ts_less (scan_timestamp s) (row_ts r)" "ts_le (row_ts r) (txn_max_timestamp s)"
        "ts_le (row_ts r0) (row_ts r)"
      and g: "getAndAdvance pb s = (False, s')"
      and u: "uncertainty_timestamp s' = row_ts r" "kvs s' = []" "intents s' = []"
        "status s' = status s"
      by blast
    from g have "scan_loop (Suc fuel) pb s = Some s'"
      if "if reverse s then slice_compare (cur_key s) (end_key s) \<ge> 0
          else slice_compare (cur_key s) (end_key s) < 0"
      using that by simp
    with r g u show ?thesis by blast
  qed
  have b: "\<exists>r. newest_le (dbtxn_max_timestamp t) (key_versions store q) = Some r
           \<and> ts_less T (row_ts r) \<and> ts_le (row_ts r) (dbtxn_max_timestamp t)
           \<and> ts_le (row_ts r1) (row_ts r)
           \<and> MVCCGet pb store K T t cons =
                \<lparr>res_status = None, res_data = [], res_intents = [],
                 res_uncertainty_timestamp = row_ts r, res_aborted = False\<rparr>
           \<and> (slice_compare K end_k < 0 \<longrightarrow>
                MVCCScan (Suc fuel) pb store K end_k T max_k t cons False =
                  Some \<lparr>res_status = None, res_data = [], res_intents = [],
                        res_uncertainty_timestamp = row_ts r, res_aborted = False\<rparr>)"
    if h: "wf_store store \<and> first_row store K = q \<and> q < length store \<and> row_key (store ! q) = K
      \<and> row_ts (store ! q) \<noteq> kZeroTimestamp
      \<and> ts_nonneg T \<and> ts_nonneg (dbtxn_max_timestamp t) \<and> ts_less T (dbtxn_max_timestamp t)
      \<and> r1 \<in> set (key_versions store q) \<and> ts_less T (row_ts r1)
      \<and> ts_le (row_ts r1) (dbtxn_max_timestamp t)"
  proof -
    let ?g = "mvccScanner False store K [] T 0 t cons"
    let ?c = "mvccScanner False store K end_k T max_k t cons"
    from uncertain_get[of ?g q r1 pb fuel] h obtain r where
      r: "newest_le (dbtxn_max_timestamp t) (key_versions store q) = Some r"
        "ts_less T (row_ts r)" "ts_le (row_ts r) (dbtxn_max_timestamp t)"
        "ts_le (row_ts r1) (row_ts r)"
      and g: "scanner_get pb ?g =
                \<lparr>res_status = None, res_data = [], res_intents = [],
                 res_uncertainty_timestamp = row_ts r, res_aborted = False\<rparr>"
      by auto
    from uncertain_get[of ?c q r1 pb fuel] h obtain r' where
      r': "newest_le (dbtxn_max_timestamp t) (key_versions store q) = Some r'"
      and c: "slice_compare K end_k < 0 \<longrightarrow>
                scanner_scan (Suc fuel) pb ?c =
                  Some \<lparr>res_status = None, res_data = [], res_intents = [],
                        res_uncertainty_timestamp = row_ts r', res_aborted = False\<rparr>"
      by auto
    from r(1) r' have "r' = r" by simp
    with r g c show ?thesis by (auto simp add: MVCCGet_def MVCCScan_def)
  qed
  from a b show ?thesis by blast
qed

theorem uncertainty_at_newest_version_witness:
  "wf_store (rows example_state_uncertain) \<and> at_row example_state_uncertain 0
   \<and> cur_timestamp example_state_uncertain \<noteq> kZeroTimestamp
   \<and> check_uncertainty example_state_uncertain
   \<and> ts_nonneg (scan_timestamp example_state_uncertain)
   \<and> ts_nonneg (txn_max_timestamp example_state_uncertain)
   \<and> ts_less (scan_timestamp example_state_uncertain) (txn_max_timestamp example_state_uncertain)
   \<and> (EncodeKey [107] 10 0, [10]) \<in> set (key_versions (rows example_state_uncertain) 0)
   \<and> ts_less (scan_timestamp example_state_uncertain) (row_ts (EncodeKey [107] 10 0, [10]))
   \<and> ts_le (row_ts (EncodeKey [107] 10 0, [10])) (txn_max_timestamp example_state_uncertain)
   \<and> \<not> fst (getAndAdvance example_pb example_state_uncertain)
   \<and> uncertainty_timestamp (snd (getAndAdvance example_pb example_state_uncertain)) = example_ts 10
   \<and> wf_store example_store_uncertain \<and> first_row example_store_uncertain [107] = 0
   \<and> row_key (example_store_uncertain ! 0) = [107]
   \<and> row_ts (example_store_uncertain ! 0) \<noteq> kZeroTimestamp
   \<and> ts_nonneg (example_ts 5) \<and> ts_nonneg (dbtxn_max_timestamp (example_txn 0 12))
   \<and> ts_less (example_ts 5) (dbtxn_max_timestamp (example_txn 0 12))
   \<and> MVCCGet example_pb example_store_uncertain [107] (example_ts 5) (example_txn 0 12) True =
        \<lparr>res_status = None, res_data = [], res_intents = [],
         res_uncertainty_timestamp = example_ts 10, res_aborted = False\<rparr>
   \<and> slice_compare [107] [107, 0] < 0
   \<and> MVCCScan (Suc 0) example_pb example_store_uncertain [107] [107, 0] (example_ts 5) 10
        (example_txn 0 12) True False =
        Some \<lparr>res_status = None, res_data = [], res_intents = [],
              res_uncertainty_timestamp = example_ts 10, res_aborted = False\<rparr>"
proof -
  let ?r = "(EncodeKey [107] 10 0, [10 :: byte])"
  have h1: "wf_store (rows example_state_uncertain) \<and> at_row example_state_uncertain 0
      \<and> cur_timestamp example_state_uncertain \<noteq> kZeroTimestamp
      \<and> check_uncertainty example_state_uncertain
      \<and> ts_nonneg (scan_timestamp example_state_uncertain)
      \<and> ts_nonneg (txn_max_timestamp example_state_uncertain)
      \<and> ts_less (scan_timestamp example_state_uncertain) (txn_max_timestamp example_state_uncertain)
      \<and> ?r \<in> set (key_versions (rows example_state_uncertain) 0)
      \<and> ts_less (scan_timestamp example_state_uncertain) (row_ts ?r)
      \<and> ts_le (row_ts ?r) (txn_max_timestamp example_state_uncertain)"
    by code_simp
  have h2: "wf_store example_store_uncertain \<and> first_row example_store_uncertain [107] = 0
      \<and> 0 < length example_store_uncertain
      \<and> row_key (example_store_uncertain ! 0) = [107]
      \<and> row_ts (example_store_uncertain ! 0) \<noteq> kZeroTimestamp
      \<and> ts_nonneg (example_ts 5) \<and> ts_nonneg (dbtxn_max_timestamp (example_txn 0 12))
      \<and> ts_less (example_ts 5) (dbtxn_max_timestamp (example_txn 0 12))
      \<and> ?r \<in> set (key_versions example_store_uncertain 0)
      \<and> ts_less (example_ts 5) (row_ts ?r)
      \<and> ts_le (row_ts ?r) (dbtxn_max_timestamp (example_txn 0 12))"
    by code_simp
  have n1: "newest_le (txn_max_timestamp example_state_uncertain)
              (key_versions (rows example_state_uncertain) 0) = Some ?r"
    by code_simp
  have n2: "newest_le (dbtxn_max_timestamp (example_txn 0 12))
              (key_versions example_store_uncertain 0) = Some ?r"
    by code_simp
  have t: "row_ts ?r = example_ts 10"
    by code_simp
  have c: "slice_compare [107] [107, 0] < 0"
    by code_simp
  note u = uncertainty_at_newest_version[of example_state_uncertain 0 ?r example_pb 0
      example_store_uncertain "[107]" 0 "example_ts 5" "example_txn 0 12" ?r True "[107, 0]" 10]
  from u h1 n1 t have a: "\<not> fst (getAndAdvance example_pb example_state_uncertain)
      \<and> uncertainty_timestamp (snd (getAndAdvance example_pb example_state_uncertain)) = example_ts 10"
    by auto
  from u h2 n2 t c have b:
    "MVCCGet example_pb example_store_uncertain [107] (example_ts 5) (example_txn 0 12) True =
        \<lparr>res_status = None, res_data = [], res_intents = [],
         res_uncertainty_timestamp = example_ts 10, res_aborted = False\<rparr>
     \<and> MVCCScan (Suc 0) example_pb example_store_uncertain [107] [107, 0] (example_ts 5) 10
        (example_txn 0 12) True False =
        Some \<lparr>res_status = None, res_data = [], res_intents = [],
              res_uncertainty_timestamp = example_ts 10, res_aborted = False\<rparr>"
    by auto
  from h1 h2 a b c show ?thesis by simp
qed

text \<open>
  Under an intent of another transaction that is ahead of the reader the
  scanner seeks the version at \<open>T\<close> without the uncertainty check (case 5 of
  \<^verbatim>\<open>getAndAdvance\<close>): here \<^verbatim>\<open>k\<close> has a committed version at time 10, the reader
  is at time 5 with the maximal timestamp 12, and get and scan return no
  uncertainty.
\<close>

theorem uncertainty_under_intent_counterexample:
  "(EncodeKey [107] 10 0, [10]) \<in> set example_store_foreign_intent
   \<and> ts_less (example_ts 5) (example_ts 10)
   \<and> ts_le (example_ts 10) (dbtxn_max_timestamp (example_txn 0 12))
   \<and> MVCCGet example_pb example_store_foreign_intent [107] (example_ts 5) (example_txn 0 12) True =
        \<lparr>res_status = None, res_data = [], res_intents = [],
         res_uncertainty_timestamp = kZeroTimestamp, res_aborted = False\<rparr>
   \<and> MVCCScan 5 example_pb example_store_foreign_intent [107] [107, 0] (example_ts 5) 10
        (example_txn 0 12) True False =
        Some \<lparr>res_status = None, res_data = [], res_intents = [],
              res_uncertainty_timestamp = kZeroTimestamp, res_aborted = False\<rparr>"
  by code_simp



end
